theory Spec2Isabelle
  imports Main "HOL-Library.AList" "HOL-Library.Multiset"
begin

section \<open>Python values, faults and result dictionaries\<close>

text \<open>
  The engine's operations return plain Python dictionaries. A dictionary is modelled as an
  association list from keys to values; lookups that Python answers with an exception are
  modelled as a value of \<open>fault\<close>.
\<close>

datatype fault = KeyError | IndexError | ValueError

datatype pyval = PInt int | PStr string | PBool bool | PNone | PList "pyval list"

type_synonym result = "(string \<times> pyval) list"

definition has_error :: "result \<Rightarrow> bool" where
  "has_error r = (map_of r ''error'' \<noteq> None)"

definition error_result :: "string \<Rightarrow> result" where
  "error_result msg = [(''error'', PStr msg)]"

text \<open>\<open>xs[i]\<close> of Python: a negative index counts from the end, anything else out of range raises.\<close>

definition py_index :: "'a list \<Rightarrow> int \<Rightarrow> fault + 'a" where
  "py_index xs i =
     (if 0 \<le> i \<and> i < int (length xs) then Inr (xs ! nat i)
      else if i < 0 \<and> - int (length xs) \<le> i then Inr (xs ! nat (int (length xs) + i))
      else Inl IndexError)"

text \<open>\<open>str(n)\<close> for an integer, as the f-strings of the engine print it.\<close>

function str_digits :: "int \<Rightarrow> string" where
  "str_digits n =
     (if n < 10 then [''0123456789'' ! nat n]
      else str_digits (n div 10) @ [''0123456789'' ! nat (n mod 10)])"
  by pat_completeness auto
termination
  by (relation "measure nat") auto

declare str_digits.simps [simp del]

definition str_int :: "int \<Rightarrow> string" where
  "str_int i = (if i < 0 then CHR ''-'' # str_digits (- i) else str_digits i)"

fun join :: "string \<Rightarrow> string list \<Rightarrow> string" where
  "join sep [] = []"
| "join sep [x] = x"
| "join sep (x # y # ys) = x @ sep @ join sep (y # ys)"

section \<open>Board catalog (game/data/tiles.py)\<close>

datatype TileType =
  GO | PROPERTY | RAILROAD | UTILITY | TAX | CHANCE | COMMUNITY_CHEST | JAIL | FREE_PARKING | GO_TO_JAIL

fun TileType_value :: "TileType \<Rightarrow> string" where
  "TileType_value GO = ''go''"
| "TileType_value PROPERTY = ''property''"
| "TileType_value RAILROAD = ''railroad''"
| "TileType_value UTILITY = ''utility''"
| "TileType_value TAX = ''tax''"
| "TileType_value CHANCE = ''chance''"
| "TileType_value COMMUNITY_CHEST = ''community_chest''"
| "TileType_value JAIL = ''jail''"
| "TileType_value FREE_PARKING = ''free_parking''"
| "TileType_value GO_TO_JAIL = ''go_to_jail''"

text \<open>One entry of \<open>TILE_DATA\<close>: the keys every entry has, and the optional ones.\<close>

record tile_data =
  td_name :: string
  td_type :: TileType
  td_price :: "int option"
  td_mortgage :: "int option"
  td_color :: "string option"
  td_house_cost :: "int option"
  td_rent :: "int list option"
  td_amount :: "int option"

definition plain_entry :: "string \<Rightarrow> TileType \<Rightarrow> tile_data" where
  "plain_entry n t = \<lparr>td_name = n, td_type = t, td_price = None, td_mortgage = None,
     td_color = None, td_house_cost = None, td_rent = None, td_amount = None\<rparr>"

definition street_entry :: "string \<Rightarrow> int \<Rightarrow> int \<Rightarrow> string \<Rightarrow> int \<Rightarrow> int list \<Rightarrow> tile_data" where
  "street_entry n p m c h r = \<lparr>td_name = n, td_type = PROPERTY, td_price = Some p,
     td_mortgage = Some m, td_color = Some c, td_house_cost = Some h, td_rent = Some r,
     td_amount = None\<rparr>"

definition priced_entry :: "string \<Rightarrow> TileType \<Rightarrow> int \<Rightarrow> int \<Rightarrow> tile_data" where
  "priced_entry n t p m = \<lparr>td_name = n, td_type = t, td_price = Some p, td_mortgage = Some m,
     td_color = None, td_house_cost = None, td_rent = None, td_amount = None\<rparr>"

definition tax_entry :: "string \<Rightarrow> int \<Rightarrow> tile_data" where
  "tax_entry n a = \<lparr>td_name = n, td_type = TAX, td_price = None, td_mortgage = None,
     td_color = None, td_house_cost = None, td_rent = None, td_amount = Some a\<rparr>"

definition TILE_DATA :: "(int \<times> tile_data) list" where
  "TILE_DATA =
   [(0, plain_entry ''GO'' GO),
    (1, street_entry ''Mediterranean Avenue'' 60 30 ''brown'' 50 [2, 10, 30, 90, 160, 250]),
    (2, plain_entry ''Community Chest'' COMMUNITY_CHEST),
    (3, street_entry ''Baltic Avenue'' 60 30 ''brown'' 50 [4, 20, 60, 180, 320, 450]),
    (4, tax_entry ''Income Tax'' 200),
    (5, priced_entry ''Reading Railroad'' RAILROAD 200 100),
    (6, street_entry ''Oriental Avenue'' 100 50 ''light_blue'' 50 [6, 30, 90, 270, 400, 550]),
    (7, plain_entry ''Chance'' CHANCE),
    (8, street_entry ''Vermont Avenue'' 100 50 ''light_blue'' 50 [6, 30, 90, 270, 400, 550]),
    (9, street_entry ''Connecticut Avenue'' 120 60 ''light_blue'' 50 [8, 40, 100, 300, 450, 600]),
    (10, plain_entry ''Jail / Just Visiting'' JAIL),
    (11, street_entry ''St. Charles Place'' 140 70 ''pink'' 100 [10, 50, 150, 450, 625, 750]),
    (12, priced_entry ''Electric Company'' UTILITY 150 75),
    (13, street_entry ''States Avenue'' 140 70 ''pink'' 100 [10, 50, 150, 450, 625, 750]),
    (14, street_entry ''Virginia Avenue'' 160 80 ''pink'' 100 [12, 60, 180, 500, 700, 900]),
    (15, priced_entry ''Pennsylvania Railroad'' RAILROAD 200 100),
    (16, street_entry ''St. James Place'' 180 90 ''orange'' 100 [14, 70, 200, 550, 750, 950]),
    (17, plain_entry ''Community Chest'' COMMUNITY_CHEST),
    (18, street_entry ''Tennessee Avenue'' 180 90 ''orange'' 100 [14, 70, 200, 550, 750, 950]),
    (19, street_entry ''New York Avenue'' 200 100 ''orange'' 100 [16, 80, 220, 600, 800, 1000]),
    (20, plain_entry ''Free Parking'' FREE_PARKING),
    (21, street_entry ''Kentucky Avenue'' 220 110 ''red'' 150 [18, 90, 250, 700, 875, 1050]),
    (22, plain_entry ''Chance'' CHANCE),
    (23, street_entry ''Indiana Avenue'' 220 110 ''red'' 150 [18, 90, 250, 700, 875, 1050]),
    (24, street_entry ''Illinois Avenue'' 240 120 ''red'' 150 [20, 100, 300, 750, 925, 1100]),
    (25, priced_entry ''B&O Railroad'' RAILROAD 200 100),
    (26, street_entry ''Atlantic Avenue'' 260 130 ''yellow'' 150 [22, 110, 330, 800, 975, 1150]),
    (27, street_entry ''Ventnor Avenue'' 260 130 ''yellow'' 150 [22, 110, 330, 800, 975, 1150]),
    (28, priced_entry ''Water Works'' UTILITY 150 75),
    (29, street_entry ''Marvin Gardens'' 280 140 ''yellow'' 150 [24, 120, 360, 850, 1025, 1200]),
    (30, plain_entry ''Go To Jail'' GO_TO_JAIL),
    (31, street_entry ''Pacific Avenue'' 300 150 ''green'' 200 [26, 130, 390, 900, 1100, 1275]),
    (32, street_entry ''North Carolina Avenue'' 300 150 ''green'' 200 [26, 130, 390, 900, 1100, 1275]),
    (33, plain_entry ''Community Chest'' COMMUNITY_CHEST),
    (34, street_entry ''Pennsylvania Avenue'' 320 160 ''green'' 200 [28, 150, 450, 1000, 1200, 1400]),
    (35, priced_entry ''Short Line Railroad'' RAILROAD 200 100),
    (36, plain_entry ''Chance'' CHANCE),
    (37, street_entry ''Park Place'' 350 175 ''dark_blue'' 200 [35, 175, 500, 1100, 1300, 1500]),
    (38, tax_entry ''Luxury Tax'' 100),
    (39, street_entry ''Boardwalk'' 400 200 ''dark_blue'' 200 [50, 200, 600, 1400, 1700, 2000])]"

section \<open>Property ledger (game/data/property.py)\<close>

text \<open>
  The dataclass \<open>Property\<close>. Its fields \<open>position\<close> and \<open>name\<close> are written
  \<open>tile_position\<close> and \<open>tile_name\<close>, since a player has fields of the same names.
\<close>

record Property =
  tile_position :: int
  tile_name :: string
  tile_type :: TileType
  price :: int
  mortgage_value :: int
  color_group :: string
  house_cost :: int
  rent :: "int list"
  owner :: "string option"
  houses :: int
  is_mortgaged :: bool

definition rr_rent :: "(int \<times> int) list" where
  "rr_rent = [(1, 25), (2, 50), (3, 100), (4, 200)]"

definition get_rent :: "Property \<Rightarrow> int \<Rightarrow> int \<Rightarrow> int \<Rightarrow> fault + int" where
  "get_rent t dice_roll railroads_owned utilities_owned =
     (if is_mortgaged t then Inr 0
      else if tile_type t = PROPERTY then py_index (rent t) (min (houses t) 5)
      else if tile_type t = RAILROAD then
        Inr (case map_of rr_rent railroads_owned of Some v \<Rightarrow> v | None \<Rightarrow> 25)
      else if tile_type t = UTILITY then
        Inr (dice_roll * (if utilities_owned = 2 then 10 else 4))
      else Inr 0)"

definition COLOR_GROUPS :: "(string \<times> int list) list" where
  "COLOR_GROUPS =
   [(''brown'', [1, 3]),
    (''light_blue'', [6, 8, 9]),
    (''pink'', [11, 13, 14]),
    (''orange'', [16, 18, 19]),
    (''red'', [21, 23, 24]),
    (''yellow'', [26, 27, 29]),
    (''green'', [31, 32, 34]),
    (''dark_blue'', [37, 39])]"

section \<open>Card decks (game/data/card_decks.py)\<close>

text \<open>
  A card is a dictionary whose \<open>type\<close> key selects the effect; the five types that the two
  decks use are the constructors, each with its payload and its display text.
\<close>

datatype card =
    Move int string
  | Money int string
  | JailCard string
  | GoToJailCard string
  | MoveBack int string

fun card_text :: "card \<Rightarrow> string" where
  "card_text (Move to txt) = txt"
| "card_text (Money amount txt) = txt"
| "card_text (JailCard txt) = txt"
| "card_text (GoToJailCard txt) = txt"
| "card_text (MoveBack spaces txt) = txt"

definition CHANCE_CARDS :: "card list" where
  "CHANCE_CARDS =
   [Move 0 ''Advance to GO'',
    Move 24 ''Advance to Illinois Avenue'',
    Move 39 ''Advance to Boardwalk'',
    Move 5 ''Advance to Reading Railroad'',
    Money 150 ''Bank pays you dividend of $150'',
    Money (- 15) ''Speeding fine $15'',
    JailCard ''Get Out of Jail Free'',
    GoToJailCard ''Go directly to Jail'',
    Money 50 ''Bank pays you $50'',
    MoveBack 3 ''Go back 3 spaces'']"

definition COMMUNITY_CARDS :: "card list" where
  "COMMUNITY_CARDS =
   [Move 0 ''Advance to GO'',
    Money 200 ''Bank error in your favor, collect $200'',
    Money (- 50) (''Doctor'' @ [CHR 0x27] @ ''s fees, pay $50''),
    Money 100 ''You inherit $100'',
    Money (- 100) ''Pay hospital fees $100'',
    JailCard ''Get Out of Jail Free'',
    GoToJailCard ''Go to Jail'',
    Money 25 ''Receive $25 consultancy fee'',
    Money 10 ''You won second prize in beauty contest, collect $10'',
    Money (- 150) ''Pay school fees $150'']"

section \<open>Player record\<close>

text \<open>
  Modelled from the spec: the class \<open>Player\<close> of \<open>game/data/player.py\<close> is imported by the
  engine but is not among the source files. Its fields are the ones the engine reads and writes;
  their initial values follow the spec's data model (a player starts on position 0 with cash
  1500, nothing owned, not in jail, not bankrupt).
\<close>

record Player =
  name :: string
  money :: int
  position :: int
  properties :: "int list"
  in_jail :: bool
  jail_turns :: int
  jail_cards :: int
  doubles_count :: int
  bankrupt :: bool

definition new_Player :: "string \<Rightarrow> Player" where
  "new_Player n = \<lparr>name = n, money = 1500, position = 0, properties = [], in_jail = False,
     jail_turns = 0, jail_cards = 0, doubles_count = 0, bankrupt = False\<rparr>"

section \<open>Rules engine (game/logic/game_engine.py)\<close>

datatype GamePhase = WAITING_FOR_ROLL | WAITING_FOR_BUY_DECISION | IN_JAIL | TURN_COMPLETE | GAME_OVER

fun GamePhase_value :: "GamePhase \<Rightarrow> string" where
  "GamePhase_value WAITING_FOR_ROLL = ''waiting_for_roll''"
| "GamePhase_value WAITING_FOR_BUY_DECISION = ''waiting_for_buy_decision''"
| "GamePhase_value IN_JAIL = ''in_jail''"
| "GamePhase_value TURN_COMPLETE = ''turn_complete''"
| "GamePhase_value GAME_OVER = ''game_over''"

text \<open>
  The attributes of \<open>MonopolyGameEngine\<close>. The two dictionaries are maps; a \<open>Player\<close> or
  \<open>Property\<close> object is referred to by its key, and a write through such a reference is an
  update of the map at that key.
\<close>

record Game =
  players :: "string \<rightharpoonup> Player"
  player_order :: "string list"
  current_player_idx :: nat
  phase :: GamePhase
  tiles :: "int \<rightharpoonup> Property"
  last_dice :: "int \<times> int"
  turn_number :: int
  messages :: "string list"
  chance_deck :: "card list"
  community_deck :: "card list"

text \<open>
  Randomness is an input. The dice are arguments of the operations that roll them. The
  \<open>k\<close>-th call of \<open>random.shuffle\<close> within one operation applies \<open>sh k\<close> to the list.
\<close>

type_synonym shuffler = "nat \<Rightarrow> card list \<Rightarrow> card list"

definition property_of_data :: "int \<Rightarrow> tile_data \<Rightarrow> Property" where
  "property_of_data pos d =
     \<lparr>tile_position = pos, tile_name = td_name d, tile_type = td_type d,
      price = (case td_price d of Some v \<Rightarrow> v | None \<Rightarrow> 0),
      mortgage_value = (case td_mortgage d of Some v \<Rightarrow> v | None \<Rightarrow> 0),
      color_group = (case td_color d of Some v \<Rightarrow> v | None \<Rightarrow> []),
      house_cost = (case td_house_cost d of Some v \<Rightarrow> v | None \<Rightarrow> 0),
      rent = (case td_rent d of Some v \<Rightarrow> v | None \<Rightarrow> []),
      owner = None, houses = 0, is_mortgaged = False\<rparr>"

text \<open>The constructor: nothing registered yet, both decks copied and shuffled.\<close>

definition new_engine :: "string list \<Rightarrow> shuffler \<Rightarrow> Game" where
  "new_engine player_names sh =
     \<lparr>players = Map.empty, player_order = player_names, current_player_idx = 0,
      phase = WAITING_FOR_ROLL, tiles = Map.empty, last_dice = (0, 0), turn_number = 0,
      messages = [], chance_deck = sh 0 CHANCE_CARDS, community_deck = sh 1 COMMUNITY_CARDS\<rparr>"

text \<open>
  \<open>initialize\<close>, called on the freshly constructed engine: one player per name, one tile per
  catalog entry, and the start message appended inside the tile loop as the source does.
\<close>

definition initialize :: "string list \<Rightarrow> shuffler \<Rightarrow> Game \<times> result" where
  "initialize player_names sh =
     (let s0 = new_engine player_names sh;
          s1 = fold (\<lambda>n g. g\<lparr>players := (players g)(n \<mapsto> new_Player n)\<rparr>) (player_order s0) s0;
          s2 = fold (\<lambda>e g. g\<lparr>tiles := (tiles g)(fst e \<mapsto> property_of_data (fst e) (snd e)),
                               messages := messages g @
                                 [''Game started with players: '' @ join '', '' (player_order g)]\<rparr>)
                 TILE_DATA s1
      in (s2, [(''status'', PStr ''success''),
               (''message'', PStr (''Game initialized with ''
                    @ str_int (int (length (remdups player_names))) @ '' players'')),
               (''players'', PList (map PStr (player_order s2)))]))"

text \<open>The property \<open>current_player\<close>: the key of the player object and the object.\<close>

definition current_player :: "Game \<Rightarrow> fault + (string \<times> Player)" where
  "current_player s =
     (if current_player_idx s < length (player_order s) then
        (case players s (player_order s ! current_player_idx s) of
           None \<Rightarrow> Inl KeyError
         | Some p \<Rightarrow> Inr (player_order s ! current_player_idx s, p))
      else Inl IndexError)"

definition log_msg :: "string \<Rightarrow> Game \<Rightarrow> Game" where
  "log_msg msg s =
     (let m = messages s @ [msg]
      in s\<lparr>messages := (if length m > 50 then drop (length m - 50) m else m)\<rparr>)"

definition set_player :: "string \<Rightarrow> Player \<Rightarrow> Game \<Rightarrow> Game" where
  "set_player pk p s = s\<lparr>players := (players s)(pk \<mapsto> p)\<rparr>"

definition send_to_jail :: "string \<Rightarrow> Player \<Rightarrow> string \<Rightarrow> Game \<Rightarrow> Game" where
  "send_to_jail pk p reason s =
     log_msg (name p @ '' sent to jail ('' @ reason @ '')'')
       ((set_player pk (p\<lparr>position := 10, in_jail := True, jail_turns := 0, doubles_count := 0\<rparr>) s)
          \<lparr>phase := TURN_COMPLETE\<rparr>)"

text \<open>The generator sums of \<open>_calculate_rent\<close>: how many owned positions have the given type.\<close>

fun count_type :: "Game \<Rightarrow> TileType \<Rightarrow> int list \<Rightarrow> fault + int" where
  "count_type s ty [] = Inr 0"
| "count_type s ty (pos # rest) =
     (case tiles s pos of
        None \<Rightarrow> Inl KeyError
      | Some t \<Rightarrow>
          (case count_type s ty rest of
             Inl e \<Rightarrow> Inl e
           | Inr c \<Rightarrow> Inr ((if tile_type t = ty then 1 else 0) + c)))"

definition calculate_rent :: "Game \<Rightarrow> Property \<Rightarrow> int \<Rightarrow> fault + int" where
  "calculate_rent s tile dice =
     (case owner tile of
        None \<Rightarrow> Inl KeyError
      | Some ow \<Rightarrow>
          (case players s ow of
             None \<Rightarrow> Inl KeyError
           | Some op \<Rightarrow>
               if tile_type tile = RAILROAD then
                 (case count_type s RAILROAD (properties op) of
                    Inl e \<Rightarrow> Inl e
                  | Inr c \<Rightarrow> get_rent tile 0 c 1)
               else if tile_type tile = UTILITY then
                 (case count_type s UTILITY (properties op) of
                    Inl e \<Rightarrow> Inl e
                  | Inr c \<Rightarrow> get_rent tile dice 1 c)
               else get_rent tile 0 1 1))"

text \<open>
  \<open>_handle_landing\<close> and \<open>_draw_card\<close> call each other. The first argument of
  \<open>handle_landing\<close> bounds the depth of the calls; \<open>None\<close> is the value of a resolution
  that needs more. \<open>draw_card_body\<close> is the body of \<open>_draw_card\<close> with its two calls of
  \<open>_handle_landing\<close> taken as the parameter \<open>landing\<close>: first the draw, then
  \<open>card_effect\<close>, the chain of tests on the type of the drawn card. A non-empty persistent
  deck is popped in place; for an empty one the source binds its local variable to a fresh
  shuffled copy and pops that copy, so the persistent deck stays as it is.
\<close>

type_synonym landing = "shuffler \<Rightarrow> Game \<Rightarrow> string \<Rightarrow> Property \<Rightarrow> int \<Rightarrow> (fault + Game \<times> result) option"

definition card_effect :: "landing \<Rightarrow> shuffler \<Rightarrow> Game \<Rightarrow> string \<Rightarrow> Player \<Rightarrow> card \<Rightarrow> (fault + Game \<times> result) option" where
  "card_effect landing sh s pk p c =
     (case c of
        Money amount txt \<Rightarrow>
          Some (Inr ((set_player pk (p\<lparr>money := money p + amount\<rparr>) s)\<lparr>phase := TURN_COMPLETE\<rparr>,
                     [(''result'', PStr txt), (''money_change'', PInt amount)]))
      | Move to txt \<Rightarrow>
          let p1 = p\<lparr>position := to\<rparr>;
              p2 = (if to < position p then p1\<lparr>money := money p1 + 200\<rparr> else p1);
              s2 = (set_player pk p2 s)\<lparr>phase := TURN_COMPLETE\<rparr>
          in (case tiles s2 (position p2) of
                None \<Rightarrow> Some (Inl KeyError)
              | Some t \<Rightarrow> landing sh s2 pk t (fst (last_dice s2) + snd (last_dice s2)))
      | MoveBack spaces txt \<Rightarrow>
          let p1 = p\<lparr>position := (position p - spaces) mod 40\<rparr>;
              s2 = (set_player pk p1 s)\<lparr>phase := TURN_COMPLETE\<rparr>
          in (case tiles s2 (position p1) of
                None \<Rightarrow> Some (Inl KeyError)
              | Some t \<Rightarrow> landing sh s2 pk t (fst (last_dice s2) + snd (last_dice s2)))
      | JailCard txt \<Rightarrow>
          Some (Inr ((set_player pk (p\<lparr>jail_cards := jail_cards p + 1\<rparr>) s)\<lparr>phase := TURN_COMPLETE\<rparr>,
                     [(''result'', PStr ''Received Get Out of Jail Free card'')]))
      | GoToJailCard txt \<Rightarrow>
          Some (Inr (send_to_jail pk p ''card'' s, [(''result'', PStr ''Go to Jail!'')])))"

definition draw_card_body :: "landing \<Rightarrow> shuffler \<Rightarrow> Game \<Rightarrow> string \<Rightarrow> TileType \<Rightarrow> (fault + Game \<times> result) option" where
  "draw_card_body landing sh s pk card_type =
     (case players s pk of
        None \<Rightarrow> Some (Inl KeyError)
      | Some p \<Rightarrow>
          let persistent = (if card_type = CHANCE then chance_deck s else community_deck s);
              deck = (if persistent = [] then
                        sh 0 (if card_type = CHANCE then CHANCE_CARDS else COMMUNITY_CARDS)
                      else persistent);
              sh1 = (if persistent = [] then (\<lambda>k. sh (Suc k)) else sh)
          in (case deck of
                [] \<Rightarrow> Some (Inl IndexError)
              | c # remaining \<Rightarrow>
                  let s0 = (if persistent = [] then s
                            else if card_type = CHANCE then s\<lparr>chance_deck := remaining\<rparr>
                            else s\<lparr>community_deck := remaining\<rparr>);
                      s1 = log_msg (name p @ '' drew: '' @ card_text c) s0
                  in card_effect landing sh1 s1 pk p c))"

primrec handle_landing :: "nat \<Rightarrow> landing" where
  "handle_landing 0 sh s pk tile dice_total = None"
| "handle_landing (Suc n) sh s pk tile dice_total =
     (case players s pk of
        None \<Rightarrow> Some (Inl KeyError)
      | Some p \<Rightarrow>
          if tile_type tile = GO_TO_JAIL then
            Some (Inr (send_to_jail pk p ''landed on Go To Jail'' s, [(''result'', PStr ''Go to Jail!'')]))
          else if tile_type tile = TAX then
            (case map_of TILE_DATA (tile_position tile) of
               None \<Rightarrow> Some (Inl KeyError)
             | Some d \<Rightarrow>
                 let amount = (case td_amount d of Some a \<Rightarrow> a | None \<Rightarrow> 0);
                     s1 = set_player pk (p\<lparr>money := money p - amount\<rparr>) s;
                     s2 = log_msg (name p @ '' paid $'' @ str_int amount @ '' tax'') s1
                 in Some (Inr (s2\<lparr>phase := TURN_COMPLETE\<rparr>,
                               [(''result'', PStr (''Paid $'' @ str_int amount @ '' tax''))])))
          else if tile_type tile = CHANCE \<or> tile_type tile = COMMUNITY_CHEST then
            draw_card_body (handle_landing n) sh s pk (tile_type tile)
          else if tile_type tile = PROPERTY \<or> tile_type tile = RAILROAD \<or> tile_type tile = UTILITY then
            (case owner tile of
               None \<Rightarrow>
                 Some (Inr (s\<lparr>phase := WAITING_FOR_BUY_DECISION\<rparr>,
                            [(''result'', PStr ''unowned_property''),
                             (''price'', PInt (price tile)),
                             (''can_afford'', PBool (money p \<ge> price tile))]))
             | Some ow \<Rightarrow>
                 if ow \<noteq> name p then
                   (case calculate_rent s tile dice_total of
                      Inl e \<Rightarrow> Some (Inl e)
                    | Inr rnt \<Rightarrow>
                        let s1 = set_player pk (p\<lparr>money := money p - rnt\<rparr>) s
                        in (case players s1 ow of
                              None \<Rightarrow> Some (Inl KeyError)
                            | Some op \<Rightarrow>
                                let s2 = set_player ow (op\<lparr>money := money op + rnt\<rparr>) s1;
                                    s3 = log_msg (name p @ '' paid $'' @ str_int rnt @ '' rent to '' @ ow) s2
                                in Some (Inr (s3\<lparr>phase := TURN_COMPLETE\<rparr>,
                                     [(''result'', PStr (''Paid $'' @ str_int rnt @ '' rent to '' @ ow))]))))
                 else
                   Some (Inr (s\<lparr>phase := TURN_COMPLETE\<rparr>, [(''result'', PStr ''Landed on own property'')])))
          else
            Some (Inr (s\<lparr>phase := TURN_COMPLETE\<rparr>, [(''result'', PStr ''Nothing happens'')])))"

definition draw_card :: "nat \<Rightarrow> shuffler \<Rightarrow> Game \<Rightarrow> string \<Rightarrow> TileType \<Rightarrow> (fault + Game \<times> result) option" where
  "draw_card n = draw_card_body (handle_landing n)"

text \<open>
  \<open>roll_and_move\<close>, with the two dice as arguments. The keys \<open>dice\<close>, \<open>doubles\<close>,
  \<open>new_position\<close>, \<open>tile\<close> and \<open>money\<close> are written into the dictionary that landing
  resolution returned.
\<close>

definition roll_and_move :: "nat \<Rightarrow> shuffler \<Rightarrow> int \<Rightarrow> int \<Rightarrow> Game \<Rightarrow> (fault + Game \<times> result) option" where
  "roll_and_move fuel sh d1 d2 s =
     (if phase s = IN_JAIL then
        Some (Inr (s, error_result ''You are in jail. Use jail actions instead.''))
      else if phase s \<noteq> WAITING_FOR_ROLL then
        Some (Inr (s, error_result (''Cannot roll now. Current phase: '' @ GamePhase_value (phase s))))
      else
        (case current_player s of
           Inl e \<Rightarrow> Some (Inl e)
         | Inr (pk, p) \<Rightarrow>
             let total = d1 + d2;
                 is_doubles = (d1 = d2);
                 s1 = log_msg (name p @ '' rolled ['' @ str_int d1 @ '']['' @ str_int d2 @ ''] = ''
                        @ str_int total @ (if is_doubles then '' DOUBLES!'' else ''''))
                        (s\<lparr>last_dice := (d1, d2)\<rparr>);
                 p1 = (if is_doubles then p\<lparr>doubles_count := doubles_count p + 1\<rparr>
                       else p\<lparr>doubles_count := 0\<rparr>)
             in if is_doubles \<and> doubles_count p1 \<ge> 3 then
                  Some (Inr (send_to_jail pk p1 ''three doubles'' s1,
                             [(''dice'', PList [PInt d1, PInt d2]),
                              (''doubles'', PBool True),
                              (''result'', PStr ''Sent to jail for 3 doubles!'')]))
                else
                  let old_pos = position p1;
                      p2 = p1\<lparr>position := (position p1 + total) mod 40\<rparr>;
                      passed = (position p2 < old_pos \<and> position p2 \<noteq> 10);
                      p3 = (if passed then p2\<lparr>money := money p2 + 200\<rparr> else p2);
                      s2 = set_player pk p3 s1;
                      s3 = (if passed then log_msg (name p @ '' passed GO and collected $200'') s2 else s2)
                  in (case tiles s3 (position p3) of
                        None \<Rightarrow> Some (Inl KeyError)
                      | Some tile \<Rightarrow>
                          let s4 = log_msg (name p @ '' landed on '' @ tile_name tile) s3
                          in (case handle_landing fuel sh s4 pk tile total of
                                None \<Rightarrow> None
                              | Some (Inl e) \<Rightarrow> Some (Inl e)
                              | Some (Inr (s5, res)) \<Rightarrow>
                                  (case players s5 pk of
                                     None \<Rightarrow> Some (Inl KeyError)
                                   | Some p5 \<Rightarrow>
                                       let res1 = AList.update ''money'' (PInt (money p5))
                                                   (AList.update ''tile'' (PStr (tile_name tile))
                                                   (AList.update ''new_position'' (PInt (position p5))
                                                   (AList.update ''doubles'' (PBool is_doubles)
                                                   (AList.update ''dice'' (PList [PInt d1, PInt d2]) res))))
                                       in if is_doubles \<and> phase s5 = TURN_COMPLETE then
                                            Some (Inr (s5\<lparr>phase := WAITING_FOR_ROLL\<rparr>,
                                                       AList.update ''roll_again'' (PBool True) res1))
                                          else Some (Inr (s5, res1)))))))"

definition buy_current_property :: "Game \<Rightarrow> fault + Game \<times> result" where
  "buy_current_property s =
     (if phase s \<noteq> WAITING_FOR_BUY_DECISION then
        Inr (s, error_result ''No property available to buy'')
      else
        (case current_player s of
           Inl e \<Rightarrow> Inl e
         | Inr (pk, p) \<Rightarrow>
             (case tiles s (position p) of
                None \<Rightarrow> Inl KeyError
              | Some tile \<Rightarrow>
                  if money p < price tile then
                    Inr (s, error_result (''Not enough money. Need $'' @ str_int (price tile)
                                           @ '', have $'' @ str_int (money p)))
                  else
                    let p1 = p\<lparr>money := money p - price tile,
                                properties := properties p @ [tile_position tile]\<rparr>;
                        s1 = (set_player pk p1 s)
                               \<lparr>tiles := (tiles s)(position p \<mapsto> tile\<lparr>owner := Some (name p)\<rparr>)\<rparr>;
                        s2 = log_msg (name p @ '' bought '' @ tile_name tile @ '' for $''
                                        @ str_int (price tile)) s1
                    in Inr (s2\<lparr>phase := TURN_COMPLETE\<rparr>,
                            [(''success'', PBool True),
                             (''property'', PStr (tile_name tile)),
                             (''price'', PInt (price tile)),
                             (''remaining_money'', PInt (money p1))]))))"

definition decline_purchase :: "Game \<Rightarrow> fault + Game \<times> result" where
  "decline_purchase s =
     (if phase s \<noteq> WAITING_FOR_BUY_DECISION then
        Inr (s, error_result ''No property to decline'')
      else
        (case current_player s of
           Inl e \<Rightarrow> Inl e
         | Inr (pk, p) \<Rightarrow>
             (case tiles s (position p) of
                None \<Rightarrow> Inl KeyError
              | Some tile \<Rightarrow>
                  Inr (log_msg (''Declined property purchase  for '' @ tile_name tile)
                         (s\<lparr>phase := TURN_COMPLETE\<rparr>),
                       [(''success'', PBool True),
                        (''successfully declined purchase of property'', PBool True),
                        (''property'', PStr (tile_name tile))]))))"

definition pay_bail :: "Game \<Rightarrow> fault + Game \<times> result" where
  "pay_bail s =
     (case current_player s of
        Inl e \<Rightarrow> Inl e
      | Inr (pk, p) \<Rightarrow>
          if \<not> in_jail p then Inr (s, error_result ''Not in jail'')
          else if money p < 50 then Inr (s, error_result ''Not enough money for bail'')
          else
            let p1 = p\<lparr>money := money p - 50, in_jail := False, jail_turns := 0\<rparr>;
                s1 = log_msg (name p @ '' paid $50 bail'')
                       ((set_player pk p1 s)\<lparr>phase := WAITING_FOR_ROLL\<rparr>)
            in Inr (s1, [(''success'', PBool True), (''remaining_money'', PInt (money p1))]))"

definition use_jail_card :: "Game \<Rightarrow> fault + Game \<times> result" where
  "use_jail_card s =
     (case current_player s of
        Inl e \<Rightarrow> Inl e
      | Inr (pk, p) \<Rightarrow>
          if \<not> in_jail p then Inr (s, error_result ''Not in jail'')
          else if jail_cards p < 1 then Inr (s, error_result ''No jail cards'')
          else
            let p1 = p\<lparr>jail_cards := jail_cards p - 1, in_jail := False, jail_turns := 0\<rparr>;
                s1 = log_msg (name p @ '' used Get Out of Jail Free card'')
                       ((set_player pk p1 s)\<lparr>phase := WAITING_FOR_ROLL\<rparr>)
            in Inr (s1, [(''success'', PBool True)]))"

definition roll_for_doubles :: "int \<Rightarrow> int \<Rightarrow> Game \<Rightarrow> fault + Game \<times> result" where
  "roll_for_doubles d1 d2 s =
     (case current_player s of
        Inl e \<Rightarrow> Inl e
      | Inr (pk, p) \<Rightarrow>
          if \<not> in_jail p then Inr (s, error_result ''Not in jail'')
          else
            let s1 = log_msg (name p @ '' rolled ['' @ str_int d1 @ '']['' @ str_int d2
                                @ ''] trying for doubles'') (s\<lparr>last_dice := (d1, d2)\<rparr>)
            in if d1 = d2 then
                 Inr (log_msg (name p @ '' rolled doubles and escaped jail!'')
                        ((set_player pk (p\<lparr>in_jail := False, jail_turns := 0\<rparr>) s1)
                           \<lparr>phase := WAITING_FOR_ROLL\<rparr>),
                      [(''success'', PBool True), (''dice'', PList [PInt d1, PInt d2]),
                       (''escaped'', PBool True)])
               else
                 let p1 = p\<lparr>jail_turns := jail_turns p + 1\<rparr>
                 in if jail_turns p1 \<ge> 3 then
                      Inr (log_msg (name p @ '' forced to pay $50 after 3 turns'')
                             ((set_player pk (p1\<lparr>money := money p1 - 50, in_jail := False,
                                                  jail_turns := 0\<rparr>) s1)
                                \<lparr>phase := WAITING_FOR_ROLL\<rparr>),
                           [(''dice'', PList [PInt d1, PInt d2]), (''escaped'', PBool False),
                            (''forced_bail'', PBool True)])
                    else
                      Inr ((set_player pk p1 s1)\<lparr>phase := TURN_COMPLETE\<rparr>,
                           [(''dice'', PList [PInt d1, PInt d2]), (''escaped'', PBool False),
                            (''turns_remaining'', PInt (3 - jail_turns p1))]))"

text \<open>\<open>min(self.tiles[g].houses for g in group)\<close>; \<open>min\<close> of nothing raises \<open>ValueError\<close>.\<close>

fun min_houses :: "Game \<Rightarrow> int list \<Rightarrow> fault + int" where
  "min_houses s [] = Inl ValueError"
| "min_houses s [g] = (case tiles s g of None \<Rightarrow> Inl KeyError | Some t \<Rightarrow> Inr (houses t))"
| "min_houses s (g # gs) =
     (case tiles s g of
        None \<Rightarrow> Inl KeyError
      | Some t \<Rightarrow> (case min_houses s gs of Inl e \<Rightarrow> Inl e | Inr m \<Rightarrow> Inr (min (houses t) m)))"

text \<open>The loop of \<open>_get_buildable_properties\<close> over the remaining owned positions.\<close>

fun buildable_loop :: "Game \<Rightarrow> Player \<Rightarrow> int list \<Rightarrow> fault + int list" where
  "buildable_loop s p [] = Inr []"
| "buildable_loop s p (pos # rest) =
     (case tiles s pos of
        None \<Rightarrow> Inl KeyError
      | Some tile \<Rightarrow>
          if tile_type tile \<noteq> PROPERTY \<or> houses tile \<ge> 5 \<or> is_mortgaged tile then
            buildable_loop s p rest
          else
            let grp = (case map_of COLOR_GROUPS (color_group tile) of Some g \<Rightarrow> g | None \<Rightarrow> [])
            in if list_all (\<lambda>g. g \<in> set (properties p)) grp then
                 (case min_houses s grp of
                    Inl e \<Rightarrow> Inl e
                  | Inr m \<Rightarrow>
                      if houses tile \<le> m \<and> money p \<ge> house_cost tile then
                        (case buildable_loop s p rest of
                           Inl e \<Rightarrow> Inl e
                         | Inr b \<Rightarrow> Inr (pos # b))
                      else buildable_loop s p rest)
               else buildable_loop s p rest)"

definition get_buildable_properties :: "Game \<Rightarrow> Player \<Rightarrow> fault + int list" where
  "get_buildable_properties s p = buildable_loop s p (properties p)"

definition build_house :: "int \<Rightarrow> Game \<Rightarrow> fault + Game \<times> result" where
  "build_house pos s =
     (case current_player s of
        Inl e \<Rightarrow> Inl e
      | Inr (pk, p) \<Rightarrow>
          if pos \<notin> set (properties p) then
            Inr (s, error_result (''You don'' @ [CHR 0x27] @ ''t own this property''))
          else
            (case tiles s pos of
               None \<Rightarrow> Inl KeyError
             | Some tile \<Rightarrow>
                 (case get_buildable_properties s p of
                    Inl e \<Rightarrow> Inl e
                  | Inr b \<Rightarrow>
                      if pos \<notin> set b then
                        Inr (s, error_result
                          ''Cannot build here. Check monopoly ownership and even building rules.'')
                      else
                        let p1 = p\<lparr>money := money p - house_cost tile\<rparr>;
                            tile1 = tile\<lparr>houses := houses tile + 1\<rparr>;
                            s1 = (set_player pk p1 s)\<lparr>tiles := (tiles s)(pos \<mapsto> tile1)\<rparr>;
                            building = (if houses tile1 = 5 then ''hotel''
                                        else str_int (houses tile1) @ '' house(s)'')
                        in Inr (log_msg (name p @ '' built on '' @ tile_name tile @ '' - now has ''
                                           @ building) s1,
                                [(''success'', PBool True),
                                 (''property'', PStr (tile_name tile)),
                                 (''houses'', PInt (houses tile1)),
                                 (''cost'', PInt (house_cost tile))]))))"

definition mortgage_property :: "int \<Rightarrow> Game \<Rightarrow> fault + Game \<times> result" where
  "mortgage_property pos s =
     (case current_player s of
        Inl e \<Rightarrow> Inl e
      | Inr (pk, p) \<Rightarrow>
          if pos \<notin> set (properties p) then
            Inr (s, error_result (''You don'' @ [CHR 0x27] @ ''t own this property''))
          else
            (case tiles s pos of
               None \<Rightarrow> Inl KeyError
             | Some tile \<Rightarrow>
                 if is_mortgaged tile then Inr (s, error_result ''Already mortgaged'')
                 else if houses tile > 0 then Inr (s, error_result ''Sell houses first'')
                 else
                   let s1 = (set_player pk (p\<lparr>money := money p + mortgage_value tile\<rparr>) s)
                              \<lparr>tiles := (tiles s)(pos \<mapsto> tile\<lparr>is_mortgaged := True\<rparr>)\<rparr>
                   in Inr (log_msg (name p @ '' mortgaged '' @ tile_name tile @ '' for $''
                                      @ str_int (mortgage_value tile)) s1,
                           [(''success'', PBool True),
                            (''property'', PStr (tile_name tile)),
                            (''received'', PInt (mortgage_value tile))])))"

text \<open>
  \<open>int(tile.mortgage_value * 1.1)\<close> is a product of IEEE binary64 numbers, truncated towards
  zero. A positive binary64 number is a pair \<open>(m, e)\<close> standing for \<open>m * 2 ^ e\<close> with a
  mantissa of at most 53 bits; \<open>round_to_53\<close> rounds an exact value to the nearest such
  number, ties to the even mantissa. The literal \<open>1.1\<close> is the number
  \<open>2476979795053773 * 2 ^ -51\<close>. (Exponent overflow, which needs a value beyond
  \<open>2 ^ 1023\<close>, is left out.)
\<close>

function bit_length :: "int \<Rightarrow> nat" where
  "bit_length n = (if n \<le> 0 then 0 else Suc (bit_length (n div 2)))"
  by pat_completeness auto
termination
  by (relation "measure nat") auto

declare bit_length.simps [simp del]

definition round_to_53 :: "int \<times> int \<Rightarrow> int \<times> int" where
  "round_to_53 f =
     (let m = fst f; e = snd f; b = bit_length m
      in if b \<le> 53 then (m, e)
         else
           let k = b - 53; q = m div 2 ^ k; r = m mod 2 ^ k; half = 2 ^ (k - 1);
               q1 = (if r > half \<or> (r = half \<and> odd q) then q + 1 else q)
           in (q1, e + int k))"

definition float_trunc :: "int \<times> int \<Rightarrow> int" where
  "float_trunc f = (if snd f \<ge> 0 then fst f * 2 ^ nat (snd f) else fst f div 2 ^ nat (- snd f))"

definition int_times_1_1 :: "int \<Rightarrow> int" where
  "int_times_1_1 v =
     (let f1 = round_to_53 (\<bar>v\<bar>, 0);
          f2 = round_to_53 (fst f1 * 2476979795053773, snd f1 - 51)
      in sgn v * float_trunc f2)"

definition unmortgage_property :: "int \<Rightarrow> Game \<Rightarrow> fault + Game \<times> result" where
  "unmortgage_property pos s =
     (case current_player s of
        Inl e \<Rightarrow> Inl e
      | Inr (pk, p) \<Rightarrow>
          if pos \<notin> set (properties p) then
            Inr (s, error_result (''You don'' @ [CHR 0x27] @ ''t own this property''))
          else
            (case tiles s pos of
               None \<Rightarrow> Inl KeyError
             | Some tile \<Rightarrow>
                 if \<not> is_mortgaged tile then Inr (s, error_result ''Not mortgaged'')
                 else
                   let cost = int_times_1_1 (mortgage_value tile)
                   in if money p < cost then
                        Inr (s, error_result (''Need $'' @ str_int cost @ '' to unmortgage''))
                      else
                        let s1 = (set_player pk (p\<lparr>money := money p - cost\<rparr>) s)
                                   \<lparr>tiles := (tiles s)(pos \<mapsto> tile\<lparr>is_mortgaged := False\<rparr>)\<rparr>
                        in Inr (log_msg (name p @ '' unmortgaged '' @ tile_name tile @ '' for $''
                                           @ str_int cost) s1,
                                [(''success'', PBool True),
                                 (''property'', PStr (tile_name tile)),
                                 (''cost'', PInt cost)])))"

text \<open>\<open>[n for n in self.player_order if not self.players[n].bankrupt]\<close>\<close>

fun active_players :: "Game \<Rightarrow> string list \<Rightarrow> fault + string list" where
  "active_players s [] = Inr []"
| "active_players s (n # ns) =
     (case players s n of
        None \<Rightarrow> Inl KeyError
      | Some p \<Rightarrow>
          (case active_players s ns of
             Inl e \<Rightarrow> Inl e
           | Inr a \<Rightarrow> Inr (if bankrupt p then a else n # a)))"

text \<open>
  The \<open>while\<close> loop of \<open>end_turn\<close>, from index \<open>i\<close>. The first argument counts the tests left;
  \<open>end_turn\<close> starts it with the number of registered names, after which the loop has seen
  every index and, all of them bankrupt, would never stop: \<open>None\<close>.
\<close>

fun skip_bankrupt :: "nat \<Rightarrow> Game \<Rightarrow> nat \<Rightarrow> (fault + nat) option" where
  "skip_bankrupt 0 s i = None"
| "skip_bankrupt (Suc n) s i =
     (if i < length (player_order s) then
        (case players s (player_order s ! i) of
           None \<Rightarrow> Some (Inl KeyError)
         | Some p \<Rightarrow>
             if bankrupt p then skip_bankrupt n s ((i + 1) mod length (player_order s))
             else Some (Inr i))
      else Some (Inl IndexError))"

text \<open>
  The part of \<open>end_turn\<close> under its comment \<open># Move to next player\<close>, on the state left by
  the bankruptcy check.
\<close>

definition move_to_next_player :: "Game \<Rightarrow> (fault + Game \<times> result) option" where
  "move_to_next_player s1 =
     (case active_players s1 (player_order s1) of
        Inl e \<Rightarrow> Some (Inl e)
      | Inr active \<Rightarrow>
          if length active \<le> 1 then
            Some (Inr (s1\<lparr>phase := GAME_OVER\<rparr>,
                       [(''game_over'', PBool True),
                        (''winner'', (case active of [] \<Rightarrow> PNone | w # ws \<Rightarrow> PStr w))]))
          else
            (case skip_bankrupt (length (player_order s1)) s1
                    ((current_player_idx s1 + 1) mod length (player_order s1)) of
               None \<Rightarrow> None
             | Some (Inl e) \<Rightarrow> Some (Inl e)
             | Some (Inr i) \<Rightarrow>
                 let s2 = s1\<lparr>current_player_idx := i, turn_number := turn_number s1 + 1\<rparr>
                 in (case current_player s2 of
                       Inl e \<Rightarrow> Some (Inl e)
                     | Inr (nk, np) \<Rightarrow>
                         let s3 = s2\<lparr>phase := (if in_jail np then IN_JAIL else WAITING_FOR_ROLL)\<rparr>
                         in Some (Inr (s3,
                              [(''success'', PBool True),
                               (''next_player'', PStr (name np)),
                               (''turn'', PInt (turn_number s3)),
                               (''phase'', PStr (GamePhase_value (phase s3)))])))))"

definition end_turn :: "Game \<Rightarrow> (fault + Game \<times> result) option" where
  "end_turn s =
     (if phase s \<noteq> TURN_COMPLETE then
        Some (Inr (s, error_result (''Cannot end turn in phase: '' @ GamePhase_value (phase s))))
      else
        (case current_player s of
           Inl e \<Rightarrow> Some (Inl e)
         | Inr (pk, p) \<Rightarrow>
             let p1 = p\<lparr>doubles_count := 0\<rparr>;
                 s1 = (if money p1 < 0 then
                         log_msg (name p @ '' is BANKRUPT!'') (set_player pk (p1\<lparr>bankrupt := True\<rparr>) s)
                       else set_player pk p1 s)
             in move_to_next_player s1))"

definition get_property_info :: "int \<Rightarrow> Game \<Rightarrow> fault + Game \<times> result" where
  "get_property_info pos s =
     (case tiles s pos of
        None \<Rightarrow> Inr (s, error_result ''Invalid position'')
      | Some t \<Rightarrow>
          Inr (s, [(''position'', PInt pos),
                   (''name'', PStr (tile_name t)),
                   (''type'', PStr (TileType_value (tile_type t))),
                   (''price'', PInt (price t)),
                   (''owner'', (case owner t of None \<Rightarrow> PNone | Some ow \<Rightarrow> PStr ow)),
                   (''houses'', PInt (houses t)),
                   (''mortgage_value'', PInt (mortgage_value t)),
                   (''is_mortgaged'', PBool (is_mortgaged t)),
                   (''color_group'', PStr (color_group t)),
                   (''rent'', PList (map PInt (rent t))),
                   (''house_cost'', PInt (house_cost t))]))"

section \<open>Actions, steps and reachable states\<close>

datatype action =
    RollAndMove | BuyCurrentProperty | DeclinePurchase | PayBail | UseJailCard | RollForDoubles
  | BuildHouse int | MortgageProperty int | UnmortgageProperty int | EndTurn | GetPropertyInfo int

fun step :: "nat \<Rightarrow> shuffler \<Rightarrow> int \<Rightarrow> int \<Rightarrow> action \<Rightarrow> Game \<Rightarrow> (fault + Game \<times> result) option" where
  "step fuel sh d1 d2 RollAndMove s = roll_and_move fuel sh d1 d2 s"
| "step fuel sh d1 d2 BuyCurrentProperty s = Some (buy_current_property s)"
| "step fuel sh d1 d2 DeclinePurchase s = Some (decline_purchase s)"
| "step fuel sh d1 d2 PayBail s = Some (pay_bail s)"
| "step fuel sh d1 d2 UseJailCard s = Some (use_jail_card s)"
| "step fuel sh d1 d2 RollForDoubles s = Some (roll_for_doubles d1 d2 s)"
| "step fuel sh d1 d2 (BuildHouse pos) s = Some (build_house pos s)"
| "step fuel sh d1 d2 (MortgageProperty pos) s = Some (mortgage_property pos s)"
| "step fuel sh d1 d2 (UnmortgageProperty pos) s = Some (unmortgage_property pos s)"
| "step fuel sh d1 d2 EndTurn s = end_turn s"
| "step fuel sh d1 d2 (GetPropertyInfo pos) s = Some (get_property_info pos s)"

text \<open>A shuffle returns a permutation of its argument; a die shows 1 to 6.\<close>

definition fair_shuffle :: "shuffler \<Rightarrow> bool" where
  "fair_shuffle sh = (\<forall>k xs. mset (sh k xs) = mset xs)"

definition die :: "int \<Rightarrow> bool" where
  "die d = (1 \<le> d \<and> d \<le> 6)"

inductive reachable :: "Game \<Rightarrow> bool" where
  start: "player_names \<noteq> [] \<Longrightarrow> fair_shuffle sh \<Longrightarrow> reachable (fst (initialize player_names sh))"
| next_step: "reachable s \<Longrightarrow> fair_shuffle sh \<Longrightarrow> die d1 \<Longrightarrow> die d2
     \<Longrightarrow> step fuel sh d1 d2 a s = Some (Inr (s', r)) \<Longrightarrow> reachable s'"

section \<open>Well-formed states\<close>

text \<open>
  The states the engine can be in satisfy \<open>wf_game\<close>: the current index is inside the
  registration order; every registered name has a player object carrying that name, standing on
  the board and holding board positions only; every catalog position has a tile whose fixed
  fields are those of the catalog, with a non-negative house count and a registered owner if
  any; the decks hold catalog cards.
\<close>

definition static_ok :: "int \<Rightarrow> tile_data \<Rightarrow> Property \<Rightarrow> bool" where
  "static_ok pos d t = (t\<lparr>owner := None, houses := 0, is_mortgaged := False\<rparr> = property_of_data pos d)"

definition tile_ok :: "Game \<Rightarrow> int \<times> tile_data \<Rightarrow> bool" where
  "tile_ok s e =
     (case tiles s (fst e) of
        None \<Rightarrow> False
      | Some t \<Rightarrow> static_ok (fst e) (snd e) t \<and> 0 \<le> houses t
                 \<and> (case owner t of None \<Rightarrow> True | Some ow \<Rightarrow> ow \<in> set (player_order s)))"

definition player_ok :: "Game \<Rightarrow> string \<Rightarrow> bool" where
  "player_ok s n =
     (case players s n of
        None \<Rightarrow> False
      | Some p \<Rightarrow> name p = n \<and> 0 \<le> position p \<and> position p < 40
                 \<and> list_all (\<lambda>pos. 0 \<le> pos \<and> pos < 40) (properties p))"

definition wf_game :: "Game \<Rightarrow> bool" where
  "wf_game s =
     (current_player_idx s < length (player_order s)
      \<and> list_all (player_ok s) (player_order s)
      \<and> list_all (tile_ok s) TILE_DATA
      \<and> list_all (\<lambda>c. c \<in> set CHANCE_CARDS) (chance_deck s)
      \<and> list_all (\<lambda>c. c \<in> set COMMUNITY_CARDS) (community_deck s))"

text \<open>The tile under the current player is an ownable tile without owner.\<close>

definition on_unowned_ownable :: "Game \<Rightarrow> bool" where
  "on_unowned_ownable s =
     (case current_player s of
        Inl e \<Rightarrow> False
      | Inr (pk, p) \<Rightarrow>
          (case tiles s (position p) of
             None \<Rightarrow> False
           | Some t \<Rightarrow> (tile_type t = PROPERTY \<or> tile_type t = RAILROAD \<or> tile_type t = UTILITY)
                        \<and> owner t = None))"

text \<open>
  What landing resolution leaves alone, and what it establishes: the registration order, the
  current index, every tile, the turn counter and the dice stay; the state stays well-formed;
  the phase is \<open>TURN_COMPLETE\<close> or \<open>WAITING_FOR_BUY_DECISION\<close>, the latter only with the
  player \<open>pk\<close> on an ownable tile without owner.
\<close>

definition same_board :: "Game \<Rightarrow> Game \<Rightarrow> bool" where
  "same_board s s' =
     (player_order s' = player_order s \<and> current_player_idx s' = current_player_idx s
      \<and> tiles s' = tiles s \<and> turn_number s' = turn_number s \<and> last_dice s' = last_dice s)"

definition landing_post :: "Game \<Rightarrow> string \<Rightarrow> Game \<Rightarrow> bool" where
  "landing_post s pk s' =
     (wf_game s' \<and> same_board s s'
      \<and> (phase s' = TURN_COMPLETE \<or> phase s' = WAITING_FOR_BUY_DECISION)
      \<and> (phase s' = WAITING_FOR_BUY_DECISION \<longrightarrow>
           (case players s' pk of
              None \<Rightarrow> False
            | Some p \<Rightarrow>
                (case tiles s' (position p) of
                   None \<Rightarrow> False
                 | Some t \<Rightarrow> (tile_type t = PROPERTY \<or> tile_type t = RAILROAD \<or> tile_type t = UTILITY)
                              \<and> owner t = None))))"

definition buy_decision_inv :: "Game \<Rightarrow> bool" where
  "buy_decision_inv s = (phase s = WAITING_FOR_BUY_DECISION \<longrightarrow> on_unowned_ownable s)"

text \<open>The positions of a tile's color group: \<open>COLOR_GROUPS.get(tile.color_group, [])\<close>.\<close>

definition group_positions :: "Property \<Rightarrow> int list" where
  "group_positions t = (case map_of COLOR_GROUPS (color_group t) of Some g \<Rightarrow> g | None \<Rightarrow> [])"

text \<open>
  The test of \<open>_get_buildable_properties\<close> on one owned tile: a street with fewer than five
  houses that is not mortgaged, every position of its color group held by the player, no tile
  of the group with fewer houses, and the house cost covered by the player's cash.
\<close>

definition buildable :: "Game \<Rightarrow> Player \<Rightarrow> Property \<Rightarrow> bool" where
  "buildable s p t =
     (tile_type t = PROPERTY \<and> houses t < 5 \<and> \<not> is_mortgaged t
      \<and> list_all (\<lambda>g. g \<in> set (properties p)) (group_positions t)
      \<and> list_all (\<lambda>g. case tiles s g of None \<Rightarrow> False | Some tg \<Rightarrow> houses t \<le> houses tg)
            (group_positions t)
      \<and> house_cost t \<le> money p)"

text \<open>A registered name whose player is not bankrupt.\<close>

definition is_active :: "Game \<Rightarrow> string \<Rightarrow> bool" where
  "is_active s n = (case players s n of None \<Rightarrow> False | Some p \<Rightarrow> \<not> bankrupt p)"

text \<open>An operation returned a dictionary without the key \<open>error\<close>.\<close>

definition succeeded :: "fault + Game \<times> result \<Rightarrow> bool" where
  "succeeded x = (case x of Inl e \<Rightarrow> False | Inr (s, r) \<Rightarrow> \<not> has_error r)"

section \<open>Example games\<close>

text \<open>
  Concrete games for the examples below. The shuffle used in them cuts a deck after its sixth
  card, so that \<open>Get Out of Jail Free\<close> is on top of Chance and \<open>Go to Jail\<close> on top of
  Community Chest. Three players A, B and C are registered, A moves first.
\<close>

definition demo_shuffle :: shuffler where
  "demo_shuffle k xs = rotate 6 xs"

definition demo_start :: Game where
  "demo_start = fst (initialize [''A'', ''B'', ''C''] demo_shuffle)"

text \<open>A player with the given cash, position, holdings and bankruptcy flag.\<close>

definition demo_player :: "string \<Rightarrow> int \<Rightarrow> int \<Rightarrow> int list \<Rightarrow> bool \<Rightarrow> Player" where
  "demo_player n m pos props b =
     (new_Player n)\<lparr>money := m, position := pos, properties := props, bankrupt := b\<rparr>"

text \<open>The tile at a position handed to a player (the tile's side of a purchase).\<close>

definition demo_own :: "int \<Rightarrow> string \<Rightarrow> Game \<Rightarrow> Game" where
  "demo_own pos n s =
     (case tiles s pos of
        None \<Rightarrow> s
      | Some t \<Rightarrow> s\<lparr>tiles := (tiles s)(pos \<mapsto> t\<lparr>owner := Some n\<rparr>)\<rparr>)"

text \<open>A has walked to a position without buying anything.\<close>

definition demo_at :: "int \<Rightarrow> Game" where
  "demo_at pos = set_player ''A'' (demo_player ''A'' 1500 pos [] False) demo_start"

text \<open>The Chance deck has been drawn to the end.\<close>

definition demo_exhausted :: Game where
  "demo_exhausted = demo_start\<lparr>chance_deck := []\<rparr>"

text \<open>A holds both brown streets (positions 1 and 3), in the given phase.\<close>

definition demo_monopoly :: "GamePhase \<Rightarrow> Game" where
  "demo_monopoly ph =
     (demo_own 3 ''A'' (demo_own 1 ''A''
        (set_player ''A'' (demo_player ''A'' 1500 0 [1, 3] False) demo_start)))\<lparr>phase := ph\<rparr>"


text \<open>A stands on Baltic Avenue (position 3), which belongs to B, and B is bankrupt.\<close>

definition demo_rent :: Game where
  "demo_rent =
     demo_own 3 ''B''
       (set_player ''B'' (demo_player ''B'' 0 0 [3] True)
         (set_player ''A'' (demo_player ''A'' 1500 3 [] False) demo_start))"

text \<open>The first move of the game: A rolls 1 and 2 and reaches Baltic Avenue.\<close>

definition demo_buy :: Game where
  "demo_buy =
     (case step 3 demo_shuffle 1 2 RollAndMove demo_start of
        Some (Inr (s, r)) \<Rightarrow> s
      | _ \<Rightarrow> demo_start)"

section \<open>Supporting lemmas\<close>

subsection \<open>Fields after the elementary updates\<close>

lemma log_msg_proj [simp]:
  "players (log_msg m s) = players s"
  "player_order (log_msg m s) = player_order s"
  "current_player_idx (log_msg m s) = current_player_idx s"
  "phase (log_msg m s) = phase s"
  "tiles (log_msg m s) = tiles s"
  "last_dice (log_msg m s) = last_dice s"
  "turn_number (log_msg m s) = turn_number s"
  "chance_deck (log_msg m s) = chance_deck s"
  "community_deck (log_msg m s) = community_deck s"
  by (simp_all add: log_msg_def Let_def)

lemma set_player_proj [simp]:
  "players (set_player pk p s) = (players s)(pk \<mapsto> p)"
  "player_order (set_player pk p s) = player_order s"
  "current_player_idx (set_player pk p s) = current_player_idx s"
  "phase (set_player pk p s) = phase s"
  "tiles (set_player pk p s) = tiles s"
  "last_dice (set_player pk p s) = last_dice s"
  "turn_number (set_player pk p s) = turn_number s"
  "messages (set_player pk p s) = messages s"
  "chance_deck (set_player pk p s) = chance_deck s"
  "community_deck (set_player pk p s) = community_deck s"
  by (simp_all add: set_player_def)

lemma send_to_jail_proj [simp]:
  "players (send_to_jail pk p reason s) =
     (players s)(pk \<mapsto> p\<lparr>position := 10, in_jail := True, jail_turns := 0, doubles_count := 0\<rparr>)"
  "player_order (send_to_jail pk p reason s) = player_order s"
  "current_player_idx (send_to_jail pk p reason s) = current_player_idx s"
  "phase (send_to_jail pk p reason s) = TURN_COMPLETE"
  "tiles (send_to_jail pk p reason s) = tiles s"
  "last_dice (send_to_jail pk p reason s) = last_dice s"
  "turn_number (send_to_jail pk p reason s) = turn_number s"
  "chance_deck (send_to_jail pk p reason s) = chance_deck s"
  "community_deck (send_to_jail pk p reason s) = community_deck s"
  by (simp_all add: send_to_jail_def)

subsection \<open>The tile catalog\<close>

lemma catalog_keys: "map fst TILE_DATA = [0..39]"
  by code_simp

lemma catalog_entry: "0 \<le> pos \<Longrightarrow> pos < 40 \<Longrightarrow> \<exists>d. (pos, d) \<in> set TILE_DATA"
proof -
  assume "0 \<le> pos" "pos < 40"
  then have "pos \<in> set (map fst TILE_DATA)" by (simp add: catalog_keys)
  then show ?thesis by auto
qed

lemma catalog_map_of: "(pos, d) \<in> set TILE_DATA \<Longrightarrow> map_of TILE_DATA pos = Some d"
  by (rule map_of_is_SomeI) (simp_all add: catalog_keys)

lemma catalog_range: "(pos, d) \<in> set TILE_DATA \<Longrightarrow> 0 \<le> pos \<and> pos < 40"
proof -
  assume "(pos, d) \<in> set TILE_DATA"
  then have "pos \<in> set (map fst TILE_DATA)" by force
  then show ?thesis by (simp add: catalog_keys)
qed

lemma catalog_all: "list_all P TILE_DATA \<Longrightarrow> (pos, d) \<in> set TILE_DATA \<Longrightarrow> P (pos, d)"
  by (simp add: list_all_iff)

subsection \<open>What a well-formed state provides\<close>

lemma static_fields:
  assumes "static_ok pos d t"
  shows "tile_position t = pos" "tile_name t = td_name d" "tile_type t = td_type d"
    "price t = (case td_price d of Some v \<Rightarrow> v | None \<Rightarrow> 0)"
    "mortgage_value t = (case td_mortgage d of Some v \<Rightarrow> v | None \<Rightarrow> 0)"
    "color_group t = (case td_color d of Some v \<Rightarrow> v | None \<Rightarrow> [])"
    "house_cost t = (case td_house_cost d of Some v \<Rightarrow> v | None \<Rightarrow> 0)"
    "rent t = (case td_rent d of Some v \<Rightarrow> v | None \<Rightarrow> [])"
proof -
  from assms have eq: "t\<lparr>owner := None, houses := 0, is_mortgaged := False\<rparr> = property_of_data pos d"
    by (simp add: static_ok_def)
  show "tile_position t = pos" using arg_cong [OF eq, of tile_position] by (simp add: property_of_data_def)
  show "tile_name t = td_name d" using arg_cong [OF eq, of tile_name] by (simp add: property_of_data_def)
  show "tile_type t = td_type d" using arg_cong [OF eq, of tile_type] by (simp add: property_of_data_def)
  show "price t = (case td_price d of Some v \<Rightarrow> v | None \<Rightarrow> 0)"
    using arg_cong [OF eq, of price] by (simp add: property_of_data_def)
  show "mortgage_value t = (case td_mortgage d of Some v \<Rightarrow> v | None \<Rightarrow> 0)"
    using arg_cong [OF eq, of mortgage_value] by (simp add: property_of_data_def)
  show "color_group t = (case td_color d of Some v \<Rightarrow> v | None \<Rightarrow> [])"
    using arg_cong [OF eq, of color_group] by (simp add: property_of_data_def)
  show "house_cost t = (case td_house_cost d of Some v \<Rightarrow> v | None \<Rightarrow> 0)"
    using arg_cong [OF eq, of house_cost] by (simp add: property_of_data_def)
  show "rent t = (case td_rent d of Some v \<Rightarrow> v | None \<Rightarrow> [])"
    using arg_cong [OF eq, of rent] by (simp add: property_of_data_def)
qed

lemma static_ok_dynamic [simp]:
  "static_ok pos d (t\<lparr>owner := x\<rparr>) = static_ok pos d t"
  "static_ok pos d (t\<lparr>houses := h\<rparr>) = static_ok pos d t"
  "static_ok pos d (t\<lparr>is_mortgaged := b\<rparr>) = static_ok pos d t"
  by (simp_all add: static_ok_def)

lemma wf_tileD:
  assumes "wf_game s" "(pos, d) \<in> set TILE_DATA"
  obtains t where "tiles s pos = Some t" "static_ok pos d t" "0 \<le> houses t"
    "\<And>ow. owner t = Some ow \<Longrightarrow> ow \<in> set (player_order s)"
proof -
  from assms have "tile_ok s (pos, d)" by (simp add: wf_game_def list_all_iff)
  then show ?thesis using that by (auto simp: tile_ok_def split: option.splits)
qed

lemma wf_tile_at:
  assumes "wf_game s" "0 \<le> pos" "pos < 40"
  obtains t d where "tiles s pos = Some t" "(pos, d) \<in> set TILE_DATA" "static_ok pos d t" "0 \<le> houses t"
    "\<And>ow. owner t = Some ow \<Longrightarrow> ow \<in> set (player_order s)"
proof -
  from catalog_entry [OF assms(2,3)] obtain d where d: "(pos, d) \<in> set TILE_DATA" by blast
  from wf_tileD [OF assms(1) d] show ?thesis using that d by blast
qed

lemma wf_playerD:
  assumes "wf_game s" "n \<in> set (player_order s)"
  obtains p where "players s n = Some p" "name p = n" "0 \<le> position p" "position p < 40"
    "\<And>pos. pos \<in> set (properties p) \<Longrightarrow> 0 \<le> pos \<and> pos < 40"
proof -
  from assms have "player_ok s n" by (simp add: wf_game_def list_all_iff)
  then show ?thesis using that by (auto simp: player_ok_def list_all_iff split: option.splits)
qed

lemma wf_current_player:
  assumes "wf_game s"
  obtains pk p where "current_player s = Inr (pk, p)" "pk = player_order s ! current_player_idx s"
    "pk \<in> set (player_order s)" "players s pk = Some p" "name p = pk" "0 \<le> position p" "position p < 40"
    "\<And>pos. pos \<in> set (properties p) \<Longrightarrow> 0 \<le> pos \<and> pos < 40"
proof -
  from assms have i: "current_player_idx s < length (player_order s)" by (simp add: wf_game_def)
  then have m: "player_order s ! current_player_idx s \<in> set (player_order s)" by simp
  from wf_playerD [OF assms m] obtain p where p: "players s (player_order s ! current_player_idx s) = Some p"
    "name p = player_order s ! current_player_idx s" "0 \<le> position p" "position p < 40"
    "\<And>pos. pos \<in> set (properties p) \<Longrightarrow> 0 \<le> pos \<and> pos < 40" by blast
  have "current_player s = Inr (player_order s ! current_player_idx s, p)"
    using i p(1) by (simp add: current_player_def)
  then show ?thesis using that m p by blast
qed

lemma tile_ok_iff:
  "tile_ok s e \<longleftrightarrow> (\<exists>t. tiles s (fst e) = Some t \<and> static_ok (fst e) (snd e) t \<and> 0 \<le> houses t
       \<and> (\<forall>ow. owner t = Some ow \<longrightarrow> ow \<in> set (player_order s)))"
  by (auto simp: tile_ok_def split: option.splits)

lemma player_ok_iff:
  "player_ok s n \<longleftrightarrow> (\<exists>p. players s n = Some p \<and> name p = n \<and> 0 \<le> position p \<and> position p < 40
       \<and> (\<forall>pos \<in> set (properties p). 0 \<le> pos \<and> pos < 40))"
  by (auto simp: player_ok_def list_all_iff split: option.splits)

lemma wf_game_iff:
  "wf_game s \<longleftrightarrow>
     current_player_idx s < length (player_order s)
     \<and> (\<forall>n \<in> set (player_order s). player_ok s n)
     \<and> (\<forall>e \<in> set TILE_DATA. tile_ok s e)
     \<and> set (chance_deck s) \<subseteq> set CHANCE_CARDS
     \<and> set (community_deck s) \<subseteq> set COMMUNITY_CARDS"
  by (auto simp: wf_game_def list_all_iff)

text \<open>Preservation of well-formedness by the elementary updates.\<close>

lemma wf_game_frame:
  assumes "wf_game s" "players s' = players s" "player_order s' = player_order s"
    "current_player_idx s' = current_player_idx s" "tiles s' = tiles s"
    "chance_deck s' = chance_deck s" "community_deck s' = community_deck s"
  shows "wf_game s'"
  using assms by (simp add: wf_game_iff tile_ok_iff player_ok_iff)

lemma wf_log_msg [simp]: "wf_game (log_msg m s) = wf_game s"
  by (simp add: wf_game_iff tile_ok_iff player_ok_iff)

lemma wf_phase [simp]: "wf_game (s\<lparr>phase := x\<rparr>) = wf_game s"
  by (simp add: wf_game_iff tile_ok_iff player_ok_iff)

lemma wf_last_dice [simp]: "wf_game (s\<lparr>last_dice := x\<rparr>) = wf_game s"
  by (simp add: wf_game_iff tile_ok_iff player_ok_iff)

lemma wf_turn_number [simp]: "wf_game (s\<lparr>turn_number := x\<rparr>) = wf_game s"
  by (simp add: wf_game_iff tile_ok_iff player_ok_iff)

lemma wf_set_player:
  assumes "wf_game s" "pk \<in> set (player_order s)" "name p = pk" "0 \<le> position p" "position p < 40"
    "\<forall>pos \<in> set (properties p). 0 \<le> pos \<and> pos < 40"
  shows "wf_game (set_player pk p s)"
  using assms by (auto simp: wf_game_iff tile_ok_iff player_ok_iff)

lemma wf_chance_deck:
  "wf_game s \<Longrightarrow> set cs \<subseteq> set (chance_deck s) \<Longrightarrow> wf_game (s\<lparr>chance_deck := cs\<rparr>)"
  by (auto simp: wf_game_iff tile_ok_iff player_ok_iff)

lemma wf_community_deck:
  "wf_game s \<Longrightarrow> set cs \<subseteq> set (community_deck s) \<Longrightarrow> wf_game (s\<lparr>community_deck := cs\<rparr>)"
  by (auto simp: wf_game_iff tile_ok_iff player_ok_iff)

lemma wf_set_tile:
  assumes "wf_game s" "tiles s pos = Some t"
    "\<forall>pos d. static_ok pos d t' = static_ok pos d t" "0 \<le> houses t'"
    "\<forall>ow. owner t' = Some ow \<longrightarrow> ow \<in> set (player_order s)"
  shows "wf_game (s\<lparr>tiles := (tiles s)(pos \<mapsto> t')\<rparr>)"
  using assms by (auto simp: wf_game_iff tile_ok_iff player_ok_iff)

lemma catalog_chance_positions:
  "list_all (\<lambda>e. td_type (snd e) = CHANCE \<longrightarrow> fst e = 7 \<or> fst e = 22 \<or> fst e = 36) TILE_DATA"
  by code_simp

lemma catalog_types:
  "map_of TILE_DATA 0 = Some (plain_entry ''GO'' GO)"
  by code_simp

lemma catalog_type_of:
  "map (\<lambda>pos. map_option td_type (map_of TILE_DATA pos)) [0, 24, 39, 5, 4, 19, 33, 10] =
     [Some GO, Some PROPERTY, Some PROPERTY, Some RAILROAD, Some TAX, Some PROPERTY, Some COMMUNITY_CHEST, Some JAIL]"
  by code_simp

lemma catalog_streets:
  "list_all (\<lambda>e. td_type (snd e) = PROPERTY \<longrightarrow>
      (case td_color (snd e) of None \<Rightarrow> False | Some c \<Rightarrow>
        (case map_of COLOR_GROUPS c of None \<Rightarrow> False | Some g \<Rightarrow>
           fst e \<in> set g \<and> list_all (\<lambda>q. 0 \<le> q \<and> q < 40) g))
      \<and> (case td_rent (snd e) of None \<Rightarrow> False | Some r \<Rightarrow> length r = 6)) TILE_DATA"
  by code_simp

lemma catalog_mortgage:
  "list_all (\<lambda>e. case td_mortgage (snd e) of None \<Rightarrow> True | Some m \<Rightarrow> 0 \<le> m \<and> m \<le> 200) TILE_DATA"
  by code_simp

subsection \<open>Results and boards\<close>

lemma has_error_simps [simp]:
  "has_error [] = False"
  "has_error ((k, v) # r) = (k = ''error'' \<or> has_error r)"
  "has_error (error_result m) = True"
  by (auto simp: has_error_def error_result_def)

lemma has_error_update [simp]:
  "has_error (AList.update k v r) = (k = ''error'' \<or> has_error r)"
  by (auto simp: has_error_def update_conv')

lemma same_board_refl [simp]: "same_board s s"
  by (simp add: same_board_def)

lemma same_board_trans: "same_board s s1 \<Longrightarrow> same_board s1 s2 \<Longrightarrow> same_board s s2"
  by (simp add: same_board_def)

lemma same_board_simps [simp]:
  "same_board s (log_msg m s') = same_board s s'"
  "same_board s (set_player pk p s') = same_board s s'"
  "same_board s (s'\<lparr>phase := ph\<rparr>) = same_board s s'"
  "same_board s (s'\<lparr>chance_deck := cd\<rparr>) = same_board s s'"
  "same_board s (s'\<lparr>community_deck := cd\<rparr>) = same_board s s'"
  "same_board s (send_to_jail pk p reason s') = same_board s s'"
  by (simp_all add: same_board_def)

subsection \<open>Rent is computed without fault\<close>

lemma count_type_ok:
  assumes "wf_game s" "\<forall>pos \<in> set ps. 0 \<le> pos \<and> pos < 40"
  shows "\<exists>c. count_type s ty ps = Inr c"
  using assms(2)
proof (induction ps)
  case Nil
  show ?case by simp
next
  case (Cons a ps)
  then have r: "0 \<le> a" "a < 40" by simp_all
  from wf_tile_at [OF assms(1) r] obtain t where "tiles s a = Some t" by blast
  moreover from Cons obtain c where "count_type s ty ps = Inr c" by auto
  ultimately show ?case by simp
qed

lemma get_rent_ok:
  assumes "static_ok pos d t" "(pos, d) \<in> set TILE_DATA" "0 \<le> houses t"
  shows "\<exists>r. get_rent t dice rr ut = Inr r"
proof (cases "tile_type t = PROPERTY \<and> \<not> is_mortgaged t")
  case True
  from catalog_all [OF catalog_streets assms(2)] True static_fields [OF assms(1)]
  have "length (rent t) = 6" by (auto split: option.splits)
  with assms(3) True show ?thesis
    by (auto simp: get_rent_def py_index_def Let_def min_def)
next
  case False
  then show ?thesis by (auto simp: get_rent_def)
qed

lemma calculate_rent_ok:
  assumes "wf_game s" "static_ok pos d t" "(pos, d) \<in> set TILE_DATA" "0 \<le> houses t"
    "owner t = Some ow" "ow \<in> set (player_order s)"
  shows "\<exists>r. calculate_rent s t dice = Inr r"
proof -
  from wf_playerD [OF assms(1,6)] obtain op where op: "players s ow = Some op"
    "\<And>pos. pos \<in> set (properties op) \<Longrightarrow> 0 \<le> pos \<and> pos < 40" by blast
  from op(2) have pr: "\<forall>pos \<in> set (properties op). 0 \<le> pos \<and> pos < 40" by blast
  from count_type_ok [OF assms(1) pr] obtain c1 where c1: "count_type s RAILROAD (properties op) = Inr c1" by blast
  from count_type_ok [OF assms(1) pr] obtain c2 where c2: "count_type s UTILITY (properties op) = Inr c2" by blast
  from get_rent_ok [OF assms(2,3,4)] show ?thesis
    using assms(5) op(1) c1 c2 by (simp add: calculate_rent_def)
qed

subsection \<open>Landing resolution\<close>

lemma landing_postI:
  assumes "wf_game s'" "same_board s s'" "phase s' = TURN_COMPLETE"
  shows "landing_post s pk s'"
  using assms by (simp add: landing_post_def)

lemma landing_post_trans:
  assumes "same_board s s1" "landing_post s1 pk s2"
  shows "landing_post s pk s2"
  using assms by (auto simp: landing_post_def intro: same_board_trans)

lemma landing_terminal:
  assumes wf: "wf_game s" and pk: "pk \<in> set (player_order s)" and p: "players s pk = Some p"
    and t: "tiles s (position p) = Some tile"
    and ty: "tile_type tile \<noteq> CHANCE" "tile_type tile \<noteq> COMMUNITY_CHEST"
  shows "\<exists>s' r. handle_landing (Suc n) sh s pk tile dt = Some (Inr (s', r))
           \<and> landing_post s pk s' \<and> \<not> has_error r"
proof -
  from wf_playerD [OF wf pk] p have pf: "name p = pk" "0 \<le> position p" "position p < 40"
    "\<forall>pos \<in> set (properties p). 0 \<le> pos \<and> pos < 40" by auto
  from wf_tile_at [OF wf pf(2,3)] t obtain d where d: "(position p, d) \<in> set TILE_DATA"
    "static_ok (position p) d tile" "0 \<le> houses tile"
    "\<And>ow. owner tile = Some ow \<Longrightarrow> ow \<in> set (player_order s)" by auto
  note sf = static_fields [OF d(2)]
  consider (jail) "tile_type tile = GO_TO_JAIL"
    | (tax) "tile_type tile = TAX"
    | (unowned) "tile_type tile = PROPERTY \<or> tile_type tile = RAILROAD \<or> tile_type tile = UTILITY" "owner tile = None"
    | (own) "tile_type tile = PROPERTY \<or> tile_type tile = RAILROAD \<or> tile_type tile = UTILITY" "owner tile = Some (name p)"
    | (other) ow where "tile_type tile = PROPERTY \<or> tile_type tile = RAILROAD \<or> tile_type tile = UTILITY"
        "owner tile = Some ow" "ow \<noteq> name p"
    | (nothing) "tile_type tile = GO \<or> tile_type tile = JAIL \<or> tile_type tile = FREE_PARKING"
    using ty by (cases "tile_type tile"; cases "owner tile"; auto)
  then show ?thesis
  proof cases
    case jail
    have "wf_game (set_player pk (p\<lparr>position := 10, in_jail := True, jail_turns := 0, doubles_count := 0\<rparr>) s)"
      by (rule wf_set_player [OF wf pk]) (use pf in simp_all)
    then have "landing_post s pk (send_to_jail pk p ''landed on Go To Jail'' s)"
      by (intro landing_postI) (simp_all add: send_to_jail_def)
    with jail p show ?thesis by simp
  next
    case tax
    from catalog_map_of [OF d(1)] sf(1) have m: "map_of TILE_DATA (tile_position tile) = Some d" by simp
    have "\<And>a. wf_game (set_player pk (p\<lparr>money := a\<rparr>) s)"
      by (rule wf_set_player [OF wf pk]) (use pf in simp_all)
    then show ?thesis using tax p m by (simp add: Let_def landing_postI)
  next
    case unowned
    have "landing_post s pk (s\<lparr>phase := WAITING_FOR_BUY_DECISION\<rparr>)"
      using wf p t unowned by (simp add: landing_post_def same_board_def)
    with unowned p ty show ?thesis by auto
  next
    case own
    then show ?thesis using p ty wf by (auto simp: landing_postI)
  next
    case other
    from calculate_rent_ok [OF wf d(2,1,3) other(2) d(4) [OF other(2)]]
    obtain rnt where rnt: "calculate_rent s tile dt = Inr rnt" by blast
    from wf_playerD [OF wf d(4) [OF other(2)]] obtain op where op: "players s ow = Some op" "name op = ow"
      "0 \<le> position op" "position op < 40" "\<And>pos. pos \<in> set (properties op) \<Longrightarrow> 0 \<le> pos \<and> pos < 40" by blast
    from other(3) pf(1) have ne: "ow \<noteq> pk" by simp
    let ?s1 = "set_player pk (p\<lparr>money := money p - rnt\<rparr>) s"
    have w1: "wf_game ?s1" by (rule wf_set_player [OF wf pk]) (use pf in simp_all)
    have o1: "players ?s1 ow = Some op" using ne op(1) by simp
    have w2: "wf_game (set_player ow (op\<lparr>money := money op + rnt\<rparr>) ?s1)"
      by (rule wf_set_player [OF w1]) (use d(4) [OF other(2)] op in simp_all)
    show ?thesis using other p ty rnt o1 w2 by (auto simp: Let_def landing_postI)
  next
    case nothing
    then show ?thesis using p wf by (auto simp: landing_postI)
  qed
qed

lemma fair_shuffle_set: "fair_shuffle sh \<Longrightarrow> set (sh k xs) = set xs"
  by (metis fair_shuffle_def mset_eq_setD)

lemma fair_shuffle_length: "fair_shuffle sh \<Longrightarrow> length (sh k xs) = length xs"
  by (metis fair_shuffle_def mset_eq_length)

lemma fair_shuffle_Suc: "fair_shuffle sh \<Longrightarrow> fair_shuffle (\<lambda>k. sh (Suc k))"
  by (simp add: fair_shuffle_def)

text \<open>The draw: some card of the deck's catalog, and a well-formed state on the same board.\<close>

lemma draw_card_body_draw:
  assumes wf: "wf_game s" and p: "players s pk = Some p" and sh: "fair_shuffle sh"
    and ct: "ct = CHANCE \<or> ct = COMMUNITY_CHEST"
  obtains c s1 sh1 where
    "c \<in> set (if ct = CHANCE then CHANCE_CARDS else COMMUNITY_CARDS)"
    "wf_game s1" "same_board s s1" "players s1 = players s" "phase s1 = phase s" "fair_shuffle sh1"
    "draw_card_body landing sh s pk ct = card_effect landing sh1 s1 pk p c"
proof -
  let ?cat = "if ct = CHANCE then CHANCE_CARDS else COMMUNITY_CARDS"
  let ?pers = "if ct = CHANCE then chance_deck s else community_deck s"
  have sub: "set ?pers \<subseteq> set ?cat" using wf by (auto simp: wf_game_iff)
  show ?thesis
  proof (cases "?pers = []")
    case True
    have "length (sh 0 ?cat) = 10"
      using fair_shuffle_length [OF sh] by (simp add: CHANCE_CARDS_def COMMUNITY_CARDS_def)
    then obtain c rest where cr: "sh 0 ?cat = c # rest" by (cases "sh 0 ?cat") auto
    then have "c \<in> set ?cat" using fair_shuffle_set [OF sh, of 0 ?cat] by auto
    moreover have "draw_card_body landing sh s pk ct =
        card_effect landing (\<lambda>k. sh (Suc k)) (log_msg (name p @ '' drew: '' @ card_text c) s) pk p c"
      using True cr p by (auto simp: draw_card_body_def Let_def)
    ultimately show ?thesis using that [of c "log_msg (name p @ '' drew: '' @ card_text c) s" "\<lambda>k. sh (Suc k)"]
      wf fair_shuffle_Suc [OF sh] by simp
  next
    case False
    then obtain c rest where cr: "?pers = c # rest" by (cases ?pers) auto
    then have cin: "c \<in> set ?cat" and rsub: "set rest \<subseteq> set ?pers" using sub by auto
    let ?s0 = "if ct = CHANCE then s\<lparr>chance_deck := rest\<rparr> else s\<lparr>community_deck := rest\<rparr>"
    have w0: "wf_game ?s0" using wf rsub by (auto intro: wf_chance_deck wf_community_deck split: if_splits)
    have "draw_card_body landing sh s pk ct =
        card_effect landing sh (log_msg (name p @ '' drew: '' @ card_text c) ?s0) pk p c"
      using False cr p by (auto simp: draw_card_body_def Let_def split: if_splits)
    then show ?thesis using that [of c "log_msg (name p @ '' drew: '' @ card_text c) ?s0" sh]
      cin w0 sh by (auto simp: same_board_def)
  qed
qed

lemma catalog_type_at:
  "map_option td_type (map_of TILE_DATA 0) = Some GO"
  "map_option td_type (map_of TILE_DATA 24) = Some PROPERTY"
  "map_option td_type (map_of TILE_DATA 39) = Some PROPERTY"
  "map_option td_type (map_of TILE_DATA 5) = Some RAILROAD"
  "map_option td_type (map_of TILE_DATA 4) = Some TAX"
  "map_option td_type (map_of TILE_DATA 19) = Some PROPERTY"
  "map_option td_type (map_of TILE_DATA 33) = Some COMMUNITY_CHEST"
  "map_option td_type (map_of TILE_DATA 10) = Some JAIL"
  "map_option td_type (map_of TILE_DATA 30) = Some GO_TO_JAIL"
  "map_option td_type (map_of TILE_DATA 7) = Some CHANCE"
  by code_simp+

lemma wf_tile_type:
  assumes "wf_game s" "tiles s q = Some t" "map_option td_type (map_of TILE_DATA q) = Some ty"
  shows "tile_type t = ty"
proof -
  from assms(3) obtain d where d: "map_of TILE_DATA q = Some d" "td_type d = ty" by auto
  from map_of_SomeD [OF d(1)] have "(q, d) \<in> set TILE_DATA" .
  from wf_tileD [OF assms(1) this] assms(2) have "static_ok q d t" by auto
  from static_fields(3) [OF this] d(2) show ?thesis by simp
qed

lemma wf_chance_position:
  assumes "wf_game s" "tiles s q = Some t" "0 \<le> q" "q < 40" "tile_type t = CHANCE"
  shows "q = 7 \<or> q = 22 \<or> q = 36"
proof -
  from wf_tile_at [OF assms(1,3,4)] assms(2) obtain d where d: "(q, d) \<in> set TILE_DATA" "static_ok q d t"
    by auto
  from static_fields(3) [OF d(2)] assms(5) have "td_type d = CHANCE" by simp
  with catalog_all [OF catalog_chance_positions d(1)] show ?thesis by simp
qed

lemma card_effect_post:
  assumes wf: "wf_game s" and pk: "pk \<in> set (player_order s)" and p: "players s pk = Some p"
    and dest: "\<And>to txt. c = Move to txt \<Longrightarrow> 0 \<le> to \<and> to < 40"
    and land: "\<And>s2 p2 t. wf_game s2 \<Longrightarrow> same_board s s2 \<Longrightarrow> players s2 pk = Some p2
        \<Longrightarrow> tiles s2 (position p2) = Some t
        \<Longrightarrow> (\<exists>to txt. c = Move to txt \<and> position p2 = to)
            \<or> (\<exists>sp txt. c = MoveBack sp txt \<and> position p2 = (position p - sp) mod 40)
        \<Longrightarrow> \<exists>s' r. landing sh s2 pk t (fst (last_dice s2) + snd (last_dice s2)) = Some (Inr (s', r))
              \<and> landing_post s2 pk s' \<and> \<not> has_error r"
  shows "\<exists>s' r. card_effect landing sh s pk p c = Some (Inr (s', r)) \<and> landing_post s pk s' \<and> \<not> has_error r"
proof -
  from wf_playerD [OF wf pk] p have pf: "name p = pk" "0 \<le> position p" "position p < 40"
    "\<forall>pos \<in> set (properties p). 0 \<le> pos \<and> pos < 40" by auto
  show ?thesis
  proof (cases c)
    case (Move dst tx)
    from dest [OF Move] have r: "0 \<le> dst" "dst < 40" by simp_all
    let ?p2 = "if dst < position p then p\<lparr>position := dst, money := money p + 200\<rparr> else p\<lparr>position := dst\<rparr>"
    let ?s2 = "(set_player pk ?p2 s)\<lparr>phase := TURN_COMPLETE\<rparr>"
    have w2: "wf_game ?s2" using wf_set_player [OF wf pk, of ?p2] pf r by simp
    have pos2: "position ?p2 = dst" by simp
    from wf_tile_at [OF w2 r] obtain t where t: "tiles ?s2 dst = Some t" by blast
    have "\<exists>s' r. landing sh ?s2 pk t (fst (last_dice ?s2) + snd (last_dice ?s2)) = Some (Inr (s', r))
              \<and> landing_post ?s2 pk s' \<and> \<not> has_error r"
      by (rule land [OF w2, of ?p2]) (use t Move in \<open>simp_all add: same_board_def\<close>)
    then obtain s' r where res: "landing sh ?s2 pk t (fst (last_dice ?s2) + snd (last_dice ?s2)) = Some (Inr (s', r))"
      "landing_post ?s2 pk s'" "\<not> has_error r" by blast
    have "same_board s ?s2" by (simp add: same_board_def)
    from landing_post_trans [OF this res(2)] have "landing_post s pk s'" .
    moreover have "card_effect landing sh s pk p c = Some (Inr (s', r))"
      using Move t res(1) by (simp add: card_effect_def Let_def split: if_splits)
    ultimately show ?thesis using res(3) by blast
  next
    case (MoveBack sp tx)
    let ?dst = "(position p - sp) mod 40"
    have r: "0 \<le> ?dst" "?dst < 40" by simp_all
    let ?p2 = "p\<lparr>position := ?dst\<rparr>"
    let ?s2 = "(set_player pk ?p2 s)\<lparr>phase := TURN_COMPLETE\<rparr>"
    have w2: "wf_game ?s2" using wf_set_player [OF wf pk, of ?p2] pf r by simp
    from wf_tile_at [OF w2 r] obtain t where t: "tiles ?s2 ?dst = Some t" by blast
    have "\<exists>s' r. landing sh ?s2 pk t (fst (last_dice ?s2) + snd (last_dice ?s2)) = Some (Inr (s', r))
              \<and> landing_post ?s2 pk s' \<and> \<not> has_error r"
      by (rule land [OF w2, of ?p2]) (use t MoveBack in \<open>simp_all add: same_board_def\<close>)
    then obtain s' r where res: "landing sh ?s2 pk t (fst (last_dice ?s2) + snd (last_dice ?s2)) = Some (Inr (s', r))"
      "landing_post ?s2 pk s'" "\<not> has_error r" by blast
    have "same_board s ?s2" by (simp add: same_board_def)
    from landing_post_trans [OF this res(2)] have "landing_post s pk s'" .
    moreover have "card_effect landing sh s pk p c = Some (Inr (s', r))"
      using MoveBack t res(1) by (simp add: card_effect_def Let_def)
    ultimately show ?thesis using res(3) by blast
  next
    case (Money amount tx)
    have "wf_game (set_player pk (p\<lparr>money := money p + amount\<rparr>) s)"
      by (rule wf_set_player [OF wf pk]) (use pf in simp_all)
    then show ?thesis using Money by (simp add: card_effect_def landing_postI)
  next
    case (JailCard tx)
    have "wf_game (set_player pk (p\<lparr>jail_cards := jail_cards p + 1\<rparr>) s)"
      by (rule wf_set_player [OF wf pk]) (use pf in simp_all)
    then show ?thesis using JailCard by (simp add: card_effect_def landing_postI)
  next
    case (GoToJailCard tx)
    have "wf_game (set_player pk (p\<lparr>position := 10, in_jail := True, jail_turns := 0, doubles_count := 0\<rparr>) s)"
      by (rule wf_set_player [OF wf pk]) (use pf in simp_all)
    then have "landing_post s pk (send_to_jail pk p ''card'' s)"
      by (intro landing_postI) (simp_all add: send_to_jail_def)
    then show ?thesis using GoToJailCard by (simp add: card_effect_def)
  qed
qed

lemma community_draw:
  assumes wf: "wf_game s" and pk: "pk \<in> set (player_order s)" and p: "players s pk = Some p"
    and sh: "fair_shuffle sh"
  shows "\<exists>s' r. draw_card_body (handle_landing (Suc n)) sh s pk COMMUNITY_CHEST = Some (Inr (s', r))
           \<and> landing_post s pk s' \<and> \<not> has_error r"
proof -
  from draw_card_body_draw [OF wf p sh, of COMMUNITY_CHEST "handle_landing (Suc n)", simplified]
  obtain c s1 sh1 where d: "c \<in> set COMMUNITY_CARDS" "wf_game s1" "same_board s s1"
    "players s1 = players s" "fair_shuffle sh1"
    "draw_card_body (handle_landing (Suc n)) sh s pk COMMUNITY_CHEST = card_effect (handle_landing (Suc n)) sh1 s1 pk p c"
    by blast
  have pk1: "pk \<in> set (player_order s1)" using pk d(3) by (simp add: same_board_def)
  have p1: "players s1 pk = Some p" using p d(4) by simp
  have "\<exists>s' r. card_effect (handle_landing (Suc n)) sh1 s1 pk p c = Some (Inr (s', r))
          \<and> landing_post s1 pk s' \<and> \<not> has_error r"
  proof (rule card_effect_post [OF d(2) pk1 p1])
    fix dst tx assume "c = Move dst tx"
    with d(1) show "0 \<le> dst \<and> dst < 40" by (auto simp: COMMUNITY_CARDS_def)
  next
    fix s2 p2 t
    assume a: "wf_game s2" "same_board s1 s2" "players s2 pk = Some p2" "tiles s2 (position p2) = Some t"
      "(\<exists>dst tx. c = Move dst tx \<and> position p2 = dst)
        \<or> (\<exists>sp tx. c = MoveBack sp tx \<and> position p2 = (position p - sp) mod 40)"
    from a(5) d(1) have "position p2 = 0" by (auto simp: COMMUNITY_CARDS_def)
    with wf_tile_type [OF a(1), of "position p2" t GO] a(4) have "tile_type t = GO"
      by (simp add: catalog_type_at)
    then have ty: "tile_type t \<noteq> CHANCE" "tile_type t \<noteq> COMMUNITY_CHEST" by simp_all
    have "pk \<in> set (player_order s2)" using pk1 a(2) by (simp add: same_board_def)
    from landing_terminal [OF a(1) this a(3,4) ty]
    show "\<exists>s' r. handle_landing (Suc n) sh1 s2 pk t (fst (last_dice s2) + snd (last_dice s2)) = Some (Inr (s', r))
              \<and> landing_post s2 pk s' \<and> \<not> has_error r" .
  qed
  then obtain s' r where "card_effect (handle_landing (Suc n)) sh1 s1 pk p c = Some (Inr (s', r))"
    "landing_post s1 pk s'" "\<not> has_error r" by blast
  with d(6) landing_post_trans [OF d(3)] show ?thesis by auto
qed

lemma landing_depth2:
  assumes wf: "wf_game s" and pk: "pk \<in> set (player_order s)" and p: "players s pk = Some p"
    and t: "tiles s (position p) = Some tile" and ty: "tile_type tile \<noteq> CHANCE"
    and sh: "fair_shuffle sh"
  shows "\<exists>s' r. handle_landing (Suc (Suc n)) sh s pk tile dt = Some (Inr (s', r))
           \<and> landing_post s pk s' \<and> \<not> has_error r"
proof (cases "tile_type tile = COMMUNITY_CHEST")
  case True
  from community_draw [OF wf pk p sh, of n] True p show ?thesis by simp
next
  case False
  from landing_terminal [OF wf pk p t ty False] show ?thesis .
qed

lemma chance_draw:
  assumes wf: "wf_game s" and pk: "pk \<in> set (player_order s)" and p: "players s pk = Some p"
    and t: "tiles s (position p) = Some tile" and ty: "tile_type tile = CHANCE"
    and sh: "fair_shuffle sh"
  shows "\<exists>s' r. draw_card_body (handle_landing (Suc (Suc n))) sh s pk CHANCE = Some (Inr (s', r))
           \<and> landing_post s pk s' \<and> \<not> has_error r"
proof -
  from wf_playerD [OF wf pk] p have pf: "0 \<le> position p" "position p < 40" by auto
  from wf_chance_position [OF wf t pf ty] have cp: "position p = 7 \<or> position p = 22 \<or> position p = 36" .
  from draw_card_body_draw [OF wf p sh, of CHANCE "handle_landing (Suc (Suc n))", simplified]
  obtain c s1 sh1 where d: "c \<in> set CHANCE_CARDS" "wf_game s1" "same_board s s1"
    "players s1 = players s" "fair_shuffle sh1"
    "draw_card_body (handle_landing (Suc (Suc n))) sh s pk CHANCE = card_effect (handle_landing (Suc (Suc n))) sh1 s1 pk p c"
    by blast
  have pk1: "pk \<in> set (player_order s1)" using pk d(3) by (simp add: same_board_def)
  have p1: "players s1 pk = Some p" using p d(4) by simp
  have "\<exists>s' r. card_effect (handle_landing (Suc (Suc n))) sh1 s1 pk p c = Some (Inr (s', r))
          \<and> landing_post s1 pk s' \<and> \<not> has_error r"
  proof (rule card_effect_post [OF d(2) pk1 p1])
    fix dst tx assume "c = Move dst tx"
    with d(1) show "0 \<le> dst \<and> dst < 40" by (auto simp: CHANCE_CARDS_def)
  next
    fix s2 p2 t2
    assume a: "wf_game s2" "same_board s1 s2" "players s2 pk = Some p2" "tiles s2 (position p2) = Some t2"
      "(\<exists>dst tx. c = Move dst tx \<and> position p2 = dst)
        \<or> (\<exists>sp tx. c = MoveBack sp tx \<and> position p2 = (position p - sp) mod 40)"
    from a(5) d(1) cp have pos2: "position p2 \<in> {0, 24, 39, 5, 4, 19, 33}" by (auto simp: CHANCE_CARDS_def)
    have h: "tile_type t2 \<noteq> CHANCE"
      if "position p2 = q" "map_option td_type (map_of TILE_DATA q) = Some ty" "ty \<noteq> CHANCE" for q ty
      using wf_tile_type [OF a(1) a(4), of ty] that by simp
    from pos2 have ty2: "tile_type t2 \<noteq> CHANCE"
      using h [OF _ catalog_type_at(1)] h [OF _ catalog_type_at(2)] h [OF _ catalog_type_at(3)]
        h [OF _ catalog_type_at(4)] h [OF _ catalog_type_at(5)] h [OF _ catalog_type_at(6)]
        h [OF _ catalog_type_at(7)] by auto
    have "pk \<in> set (player_order s2)" using pk1 a(2) by (simp add: same_board_def)
    from landing_depth2 [OF a(1) this a(3,4) ty2 d(5)]
    show "\<exists>s' r. handle_landing (Suc (Suc n)) sh1 s2 pk t2 (fst (last_dice s2) + snd (last_dice s2)) = Some (Inr (s', r))
              \<and> landing_post s2 pk s' \<and> \<not> has_error r" .
  qed
  then obtain s' r where "card_effect (handle_landing (Suc (Suc n))) sh1 s1 pk p c = Some (Inr (s', r))"
    "landing_post s1 pk s'" "\<not> has_error r" by blast
  with d(6) landing_post_trans [OF d(3)] show ?thesis by auto
qed

lemma landing_ok:
  assumes wf: "wf_game s" and pk: "pk \<in> set (player_order s)" and p: "players s pk = Some p"
    and t: "tiles s (position p) = Some tile" and sh: "fair_shuffle sh" and fuel: "3 \<le> fuel"
  shows "\<exists>s' r. handle_landing fuel sh s pk tile dt = Some (Inr (s', r))
           \<and> landing_post s pk s' \<and> \<not> has_error r"
proof -
  from fuel obtain n where n: "fuel = Suc (Suc (Suc n))"
    by (metis Suc_le_D numeral_3_eq_3 Suc_le_mono)
  show ?thesis
  proof (cases "tile_type tile = CHANCE")
    case True
    from chance_draw [OF wf pk p t True sh, of n] True p n show ?thesis by simp
  next
    case False
    from landing_depth2 [OF wf pk p t False sh, of "Suc n" dt] n show ?thesis by simp
  qed
qed

subsection \<open>Purchases and jail operations\<close>

lemma wf_set_player_same:
  assumes "wf_game s" "players s pk = Some p" "pk \<in> set (player_order s)"
    "name p' = name p" "position p' = position p" "properties p' = properties p"
  shows "wf_game (set_player pk p' s)"
proof -
  from wf_playerD [OF assms(1,3)] assms(2) have "name p = pk" "0 \<le> position p" "position p < 40"
    "\<forall>pos \<in> set (properties p). 0 \<le> pos \<and> pos < 40" by auto
  then show ?thesis using assms by (intro wf_set_player) simp_all
qed

lemma on_unowned_ownable_frame:
  assumes "on_unowned_ownable s" "player_order s' = player_order s"
    "current_player_idx s' = current_player_idx s"
    "\<And>n p. players s n = Some p \<Longrightarrow> \<exists>p'. players s' n = Some p' \<and> position p' = position p"
    "\<And>q t. tiles s q = Some t \<Longrightarrow> \<exists>t'. tiles s' q = Some t' \<and> tile_type t' = tile_type t \<and> owner t' = owner t"
  shows "on_unowned_ownable s'"
proof -
  from assms(1) obtain pk p t where c: "current_player s = Inr (pk, p)" "tiles s (position p) = Some t"
    "tile_type t = PROPERTY \<or> tile_type t = RAILROAD \<or> tile_type t = UTILITY" "owner t = None"
    by (auto simp: on_unowned_ownable_def split: sum.splits option.splits)
  from c(1) have i: "current_player_idx s < length (player_order s)" "pk = player_order s ! current_player_idx s"
    "players s pk = Some p"
    by (auto simp: current_player_def split: if_splits option.splits)
  from assms(4) [OF i(3)] obtain p' where p': "players s' pk = Some p'" "position p' = position p" by blast
  from assms(5) [OF c(2)] obtain t' where t': "tiles s' (position p) = Some t'" "tile_type t' = tile_type t"
    "owner t' = owner t" by blast
  have "current_player s' = Inr (pk, p')" using i p' assms(2,3) by (simp add: current_player_def)
  then show ?thesis using p' t' c by (simp add: on_unowned_ownable_def)
qed

lemma buy_current_property_ok:
  assumes wf: "wf_game s" and inv: "buy_decision_inv s"
  shows "\<exists>s' r. buy_current_property s = Inr (s', r) \<and> wf_game s' \<and> buy_decision_inv s'
           \<and> (has_error r \<longrightarrow> s' = s)"
proof (cases "phase s = WAITING_FOR_BUY_DECISION")
  case False
  then show ?thesis using wf by (simp add: buy_current_property_def buy_decision_inv_def)
next
  case True
  from wf_current_player [OF wf] obtain pk p where c: "current_player s = Inr (pk, p)"
    "pk \<in> set (player_order s)" "players s pk = Some p" "name p = pk" "0 \<le> position p" "position p < 40"
    "\<And>pos. pos \<in> set (properties p) \<Longrightarrow> 0 \<le> pos \<and> pos < 40" by blast
  from wf_tile_at [OF wf c(5,6)] obtain t d where t: "tiles s (position p) = Some t"
    "(position p, d) \<in> set TILE_DATA" "static_ok (position p) d t" "0 \<le> houses t" by blast
  note sf = static_fields [OF t(3)]
  show ?thesis
  proof (cases "money p < price t")
    case True
    then show ?thesis using \<open>phase s = WAITING_FOR_BUY_DECISION\<close> c(1) t(1) wf inv
      by (simp add: buy_current_property_def)
  next
    case False
    let ?p1 = "p\<lparr>money := money p - price t, properties := properties p @ [tile_position t]\<rparr>"
    let ?s1 = "set_player pk ?p1 s"
    have w1: "wf_game ?s1"
      by (rule wf_set_player [OF wf c(2)]) (use c sf(1) in auto)
    have w2: "wf_game (?s1\<lparr>tiles := (tiles ?s1)(position p \<mapsto> t\<lparr>owner := Some (name p)\<rparr>)\<rparr>)"
      by (rule wf_set_tile [OF w1, of _ t]) (use t c in simp_all)
    have "buy_current_property s = Inr ((log_msg (name p @ '' bought '' @ tile_name t @ '' for $'' @ str_int (price t))
            (?s1\<lparr>tiles := (tiles s)(position p \<mapsto> t\<lparr>owner := Some (name p)\<rparr>)\<rparr>))\<lparr>phase := TURN_COMPLETE\<rparr>,
          [(''success'', PBool True), (''property'', PStr (tile_name t)), (''price'', PInt (price t)),
           (''remaining_money'', PInt (money ?p1))])"
      using \<open>phase s = WAITING_FOR_BUY_DECISION\<close> c(1) t(1) False
      by (simp add: buy_current_property_def Let_def)
    then show ?thesis using w2 by (simp add: buy_decision_inv_def)
  qed
qed

lemma decline_purchase_ok:
  assumes wf: "wf_game s" and inv: "buy_decision_inv s"
  shows "\<exists>s' r. decline_purchase s = Inr (s', r) \<and> wf_game s' \<and> buy_decision_inv s'
           \<and> (has_error r \<longrightarrow> s' = s)"
proof (cases "phase s = WAITING_FOR_BUY_DECISION")
  case False
  then show ?thesis using wf by (simp add: decline_purchase_def buy_decision_inv_def)
next
  case True
  from wf_current_player [OF wf] obtain pk p where c: "current_player s = Inr (pk, p)"
    "0 \<le> position p" "position p < 40" by blast
  from wf_tile_at [OF wf c(2,3)] obtain t where t: "tiles s (position p) = Some t" by blast
  show ?thesis using True c(1) t wf by (simp add: decline_purchase_def buy_decision_inv_def)
qed

lemma pay_bail_ok:
  assumes wf: "wf_game s" and inv: "buy_decision_inv s"
  shows "\<exists>s' r. pay_bail s = Inr (s', r) \<and> wf_game s' \<and> buy_decision_inv s'
           \<and> (has_error r \<longrightarrow> s' = s)"
proof -
  from wf_current_player [OF wf] obtain pk p where c: "current_player s = Inr (pk, p)"
    "pk \<in> set (player_order s)" "players s pk = Some p" "name p = pk" "0 \<le> position p" "position p < 40"
    "\<And>pos. pos \<in> set (properties p) \<Longrightarrow> 0 \<le> pos \<and> pos < 40" by blast
  have "wf_game (set_player pk (p\<lparr>money := money p - 50, in_jail := False, jail_turns := 0\<rparr>) s)"
    by (rule wf_set_player [OF wf c(2)]) (use c in auto)
  then show ?thesis using c(1) wf inv by (simp add: pay_bail_def Let_def buy_decision_inv_def)
qed

lemma use_jail_card_ok:
  assumes wf: "wf_game s" and inv: "buy_decision_inv s"
  shows "\<exists>s' r. use_jail_card s = Inr (s', r) \<and> wf_game s' \<and> buy_decision_inv s'
           \<and> (has_error r \<longrightarrow> s' = s)"
proof -
  from wf_current_player [OF wf] obtain pk p where c: "current_player s = Inr (pk, p)"
    "pk \<in> set (player_order s)" "players s pk = Some p" "name p = pk" "0 \<le> position p" "position p < 40"
    "\<And>pos. pos \<in> set (properties p) \<Longrightarrow> 0 \<le> pos \<and> pos < 40" by blast
  have "wf_game (set_player pk (p\<lparr>jail_cards := jail_cards p - 1, in_jail := False, jail_turns := 0\<rparr>) s)"
    by (rule wf_set_player [OF wf c(2)]) (use c in auto)
  then show ?thesis using c(1) wf inv by (simp add: use_jail_card_def Let_def buy_decision_inv_def)
qed

lemma roll_for_doubles_ok:
  assumes wf: "wf_game s" and inv: "buy_decision_inv s"
  shows "\<exists>s' r. roll_for_doubles d1 d2 s = Inr (s', r) \<and> wf_game s' \<and> buy_decision_inv s'
           \<and> (has_error r \<longrightarrow> s' = s)"
proof -
  from wf_current_player [OF wf] obtain pk p where c: "current_player s = Inr (pk, p)"
    "pk \<in> set (player_order s)" "players s pk = Some p" "name p = pk" "0 \<le> position p" "position p < 40"
    "\<And>pos. pos \<in> set (properties p) \<Longrightarrow> 0 \<le> pos \<and> pos < 40" by blast
  show ?thesis using c wf inv
    by (auto simp: roll_for_doubles_def Let_def buy_decision_inv_def intro!: wf_set_player_same [where p = p])
qed

lemma get_property_info_ok:
  "\<exists>r. get_property_info pos s = Inr (s, r)"
  by (simp add: get_property_info_def split: option.splits)

subsection \<open>Buildable positions\<close>

lemma min_houses_ok:
  assumes wf: "wf_game s"
  shows "grp \<noteq> [] \<Longrightarrow> \<forall>g \<in> set grp. 0 \<le> g \<and> g < 40 \<Longrightarrow>
     \<exists>m. min_houses s grp = Inr m \<and> (\<forall>g \<in> set grp. \<exists>tg. tiles s g = Some tg \<and> m \<le> houses tg)
         \<and> (\<exists>g \<in> set grp. \<exists>tg. tiles s g = Some tg \<and> houses tg = m)"
proof (induction grp)
  case Nil
  then show ?case by simp
next
  case (Cons g gs)
  then have "0 \<le> g" "g < 40" by simp_all
  from wf_tile_at [OF wf this] obtain t where t: "tiles s g = Some t" by blast
  show ?case
  proof (cases gs)
    case Nil
    then show ?thesis using t by simp
  next
    case (Cons v va)
    then have "gs \<noteq> []" by simp
    moreover have "\<forall>g \<in> set gs. 0 \<le> g \<and> g < 40" using Cons.prems(2) by simp
    ultimately obtain m where m: "min_houses s gs = Inr m"
      "\<forall>g \<in> set gs. \<exists>tg. tiles s g = Some tg \<and> m \<le> houses tg"
      "\<exists>g \<in> set gs. \<exists>tg. tiles s g = Some tg \<and> houses tg = m"
      using Cons.IH by blast
    have e: "min_houses s (g # gs) = Inr (min (houses t) m)" using Cons t m(1) by simp
    have a: "\<forall>g' \<in> set (g # gs). \<exists>tg. tiles s g' = Some tg \<and> min (houses t) m \<le> houses tg"
    proof
      fix g' assume "g' \<in> set (g # gs)"
      then consider "g' = g" | "g' \<in> set gs" by auto
      then show "\<exists>tg. tiles s g' = Some tg \<and> min (houses t) m \<le> houses tg"
      proof cases
        case 1
        then show ?thesis using t by simp
      next
        case 2
        with m(2) obtain tg where "tiles s g' = Some tg" "m \<le> houses tg" by blast
        then show ?thesis by simp
      qed
    qed
    have b: "\<exists>g' \<in> set (g # gs). \<exists>tg. tiles s g' = Some tg \<and> houses tg = min (houses t) m"
    proof (cases "houses t \<le> m")
      case True
      then have "houses t = min (houses t) m" by simp
      with t show ?thesis by (intro bexI [of _ g]) simp_all
    next
      case False
      then have mm: "min (houses t) m = m" by simp
      from m(3) obtain g' tg where "g' \<in> set gs" "tiles s g' = Some tg" "houses tg = m" by blast
      then show ?thesis unfolding mm by (intro bexI [of _ g']) simp_all
    qed
    from e a b show ?thesis by blast
  qed
qed

lemma street_group:
  assumes "static_ok pos d t" "(pos, d) \<in> set TILE_DATA" "tile_type t = PROPERTY"
  shows "pos \<in> set (group_positions t)" "\<forall>g \<in> set (group_positions t). 0 \<le> g \<and> g < 40"
proof -
  note sf = static_fields [OF assms(1)]
  from catalog_all [OF catalog_streets assms(2)] assms(3) sf(3)
  obtain c g where "td_color d = Some c" "map_of COLOR_GROUPS c = Some g" "pos \<in> set g"
    "list_all (\<lambda>q. 0 \<le> q \<and> q < 40) g" by (auto split: option.splits)
  with sf(6) show "pos \<in> set (group_positions t)" "\<forall>g \<in> set (group_positions t). 0 \<le> g \<and> g < 40"
    by (auto simp: group_positions_def list_all_iff)
qed

lemma buildable_loop_skip:
  "tiles s a = Some t \<Longrightarrow> tile_type t \<noteq> PROPERTY \<Longrightarrow> buildable_loop s p (a # ps) = buildable_loop s p ps"
  by simp

lemma buildable_loop_Cons:
  assumes "tiles s a = Some t" "min_houses s (group_positions t) = Inr m" "buildable_loop s p ps = Inr b"
  shows "buildable_loop s p (a # ps) =
     Inr (if tile_type t = PROPERTY \<and> houses t < 5 \<and> \<not> is_mortgaged t
             \<and> (\<forall>g \<in> set (group_positions t). g \<in> set (properties p))
             \<and> houses t \<le> m \<and> house_cost t \<le> money p
          then a # b else b)"
proof -
  have gp: "(case map_of COLOR_GROUPS (color_group t) of Some g \<Rightarrow> g | None \<Rightarrow> []) = group_positions t"
    by (simp add: group_positions_def)
  show ?thesis
    by (simp add: assms gp list_all_iff Let_def)
qed

lemma buildable_loop_ok:
  assumes wf: "wf_game s"
  shows "\<forall>pos \<in> set ps. 0 \<le> pos \<and> pos < 40 \<Longrightarrow>
    \<exists>b. buildable_loop s p ps = Inr b \<and>
      (\<forall>pos. pos \<in> set b \<longleftrightarrow> pos \<in> set ps \<and>
         (\<exists>t. tiles s pos = Some t \<and> tile_type t = PROPERTY \<and> houses t < 5 \<and> \<not> is_mortgaged t
            \<and> (\<forall>g \<in> set (group_positions t). g \<in> set (properties p))
            \<and> (\<forall>g \<in> set (group_positions t). \<exists>tg. tiles s g = Some tg \<and> houses t \<le> houses tg)
            \<and> house_cost t \<le> money p))"
  (is "_ \<Longrightarrow> \<exists>b. _ \<and> (\<forall>pos. pos \<in> set b \<longleftrightarrow> pos \<in> set ps \<and> ?C pos)")
proof (induction ps)
  case Nil
  show ?case by simp
next
  case (Cons a ps)
  then have r: "0 \<le> a" "a < 40" by simp_all
  from wf_tile_at [OF wf r] obtain t d where t: "tiles s a = Some t" "(a, d) \<in> set TILE_DATA"
    "static_ok a d t" by blast
  from Cons obtain b where b: "buildable_loop s p ps = Inr b"
    "\<And>pos. pos \<in> set b \<longleftrightarrow> pos \<in> set ps \<and> ?C pos" by auto
  show ?case
  proof (cases "tile_type t = PROPERTY")
    case False
    have nc: "\<not> ?C a" using t(1) False by simp
    have "buildable_loop s p (a # ps) = Inr b" using buildable_loop_skip [OF t(1) False] b(1) by simp
    moreover have "pos \<in> set b \<longleftrightarrow> pos \<in> set (a # ps) \<and> ?C pos" for pos
      using b(2) [of pos] nc by (cases "pos = a") auto
    ultimately show ?thesis by blast
  next
    case True
    from street_group [OF t(3,2) True] have g: "a \<in> set (group_positions t)"
      "\<forall>g \<in> set (group_positions t). 0 \<le> g \<and> g < 40" .
    then have ne: "group_positions t \<noteq> []" by auto
    from min_houses_ok [OF wf ne g(2)] obtain m where m: "min_houses s (group_positions t) = Inr m"
      "\<forall>g \<in> set (group_positions t). \<exists>tg. tiles s g = Some tg \<and> m \<le> houses tg"
      "\<exists>g \<in> set (group_positions t). \<exists>tg. tiles s g = Some tg \<and> houses tg = m" by blast
    have hm: "houses t \<le> m \<longleftrightarrow>
        (\<forall>g \<in> set (group_positions t). \<exists>tg. tiles s g = Some tg \<and> houses t \<le> houses tg)"
    proof
      assume le: "houses t \<le> m"
      show "\<forall>g \<in> set (group_positions t). \<exists>tg. tiles s g = Some tg \<and> houses t \<le> houses tg"
      proof
        fix g assume "g \<in> set (group_positions t)"
        with m(2) obtain tg where "tiles s g = Some tg" "m \<le> houses tg" by blast
        with le show "\<exists>tg. tiles s g = Some tg \<and> houses t \<le> houses tg" by auto
      qed
    next
      assume all: "\<forall>g \<in> set (group_positions t). \<exists>tg. tiles s g = Some tg \<and> houses t \<le> houses tg"
      from m(3) obtain g tg where "g \<in> set (group_positions t)" "tiles s g = Some tg" "houses tg = m" by blast
      with all show "houses t \<le> m" by fastforce
    qed
    have cond: "?C a \<longleftrightarrow> (houses t < 5 \<and> \<not> is_mortgaged t
            \<and> (\<forall>g \<in> set (group_positions t). g \<in> set (properties p))
            \<and> houses t \<le> m \<and> house_cost t \<le> money p)"
      unfolding hm using t(1) True by simp
    note unf = buildable_loop_Cons [OF t(1) m(1) b(1)]
    show ?thesis
    proof (cases "?C a")
      case True
      then have "buildable_loop s p (a # ps) = Inr (a # b)" unfolding unf using cond \<open>tile_type t = PROPERTY\<close> by simp
      moreover have "pos \<in> set (a # b) \<longleftrightarrow> pos \<in> set (a # ps) \<and> ?C pos" for pos
        using b(2) [of pos] True by (cases "pos = a") auto
      ultimately show ?thesis by blast
    next
      case False
      then have "buildable_loop s p (a # ps) = Inr b" unfolding unf using cond by auto
      moreover have "pos \<in> set b \<longleftrightarrow> pos \<in> set (a # ps) \<and> ?C pos" for pos
        using b(2) [of pos] False by (cases "pos = a") auto
      ultimately show ?thesis by blast
    qed
  qed
qed

lemma buildable_iff:
  "buildable s p t \<longleftrightarrow> (tile_type t = PROPERTY \<and> houses t < 5 \<and> \<not> is_mortgaged t
            \<and> (\<forall>g \<in> set (group_positions t). g \<in> set (properties p))
            \<and> (\<forall>g \<in> set (group_positions t). \<exists>tg. tiles s g = Some tg \<and> houses t \<le> houses tg)
            \<and> house_cost t \<le> money p)"
  by (auto simp: buildable_def list_all_iff split: option.splits)

lemma get_buildable_properties_ok:
  assumes wf: "wf_game s" and c: "current_player s = Inr (pk, p)"
  obtains b where "get_buildable_properties s p = Inr b"
    "\<And>q t. tiles s q = Some t \<Longrightarrow> q \<in> set b \<longleftrightarrow> q \<in> set (properties p) \<and> buildable s p t"
proof -
  from wf_current_player [OF wf] c have pr: "\<forall>q \<in> set (properties p). 0 \<le> q \<and> q < 40" by auto
  from buildable_loop_ok [OF wf pr, of p] obtain b where b: "get_buildable_properties s p = Inr b"
    "\<And>q. q \<in> set b \<longleftrightarrow> q \<in> set (properties p) \<and>
         (\<exists>t. tiles s q = Some t \<and> tile_type t = PROPERTY \<and> houses t < 5 \<and> \<not> is_mortgaged t
            \<and> (\<forall>g \<in> set (group_positions t). g \<in> set (properties p))
            \<and> (\<forall>g \<in> set (group_positions t). \<exists>tg. tiles s g = Some tg \<and> houses t \<le> houses tg)
            \<and> house_cost t \<le> money p)"
    unfolding get_buildable_properties_def by blast
  have "q \<in> set b \<longleftrightarrow> q \<in> set (properties p) \<and> buildable s p t" if "tiles s q = Some t" for q t
    unfolding b(2) [of q] buildable_iff using that by simp
  with b(1) show ?thesis using that by blast
qed

lemma build_house_not_owned:
  assumes "current_player s = Inr (pk, p)" "pos \<notin> set (properties p)"
  shows "\<exists>r. build_house pos s = Inr (s, r) \<and> has_error r"
  using assms by (simp add: build_house_def)

lemma build_house_refused:
  assumes wf: "wf_game s" and c: "current_player s = Inr (pk, p)" and own: "pos \<in> set (properties p)"
    and t: "tiles s pos = Some t" and nb: "\<not> buildable s p t"
  shows "\<exists>r. build_house pos s = Inr (s, r) \<and> has_error r"
proof -
  from get_buildable_properties_ok [OF wf c] obtain b where b: "get_buildable_properties s p = Inr b"
    "\<And>q t. tiles s q = Some t \<Longrightarrow> q \<in> set b \<longleftrightarrow> q \<in> set (properties p) \<and> buildable s p t" by blast
  from b(2) [OF t] nb have "pos \<notin> set b" by simp
  then show ?thesis using c own t b(1) by (simp add: build_house_def)
qed

lemma build_house_built:
  assumes wf: "wf_game s" and c: "current_player s = Inr (pk, p)" and own: "pos \<in> set (properties p)"
    and t: "tiles s pos = Some t" and ok: "buildable s p t"
  shows "\<exists>m r. build_house pos s =
           Inr (log_msg m ((set_player pk (p\<lparr>money := money p - house_cost t\<rparr>) s)
                  \<lparr>tiles := (tiles s)(pos \<mapsto> t\<lparr>houses := houses t + 1\<rparr>)\<rparr>), r) \<and> \<not> has_error r"
proof -
  from get_buildable_properties_ok [OF wf c] obtain b where b: "get_buildable_properties s p = Inr b"
    "\<And>q t. tiles s q = Some t \<Longrightarrow> q \<in> set b \<longleftrightarrow> q \<in> set (properties p) \<and> buildable s p t" by blast
  from b(2) [OF t] ok own have "pos \<in> set b" by simp
  then have e: "build_house pos s =
      Inr (log_msg (name p @ '' built on '' @ tile_name t @ '' - now has ''
                     @ (if houses t + 1 = 5 then ''hotel'' else str_int (houses t + 1) @ '' house(s)''))
             ((set_player pk (p\<lparr>money := money p - house_cost t\<rparr>) s)
                \<lparr>tiles := (tiles s)(pos \<mapsto> t\<lparr>houses := houses t + 1\<rparr>)\<rparr>),
           [(''success'', PBool True), (''property'', PStr (tile_name t)),
            (''houses'', PInt (houses t + 1)), (''cost'', PInt (house_cost t))])"
    using c own t b(1) by (simp add: build_house_def Let_def)
  show ?thesis unfolding e by (intro exI conjI, rule refl) simp
qed

text \<open>A change of a tile's house count or mortgage flag keeps both invariants.\<close>

lemma tile_dynamic_update_ok:
  assumes wf: "wf_game s" and inv: "buy_decision_inv s" and c: "current_player s = Inr (pk, p)"
    and t: "tiles s pos = Some t" and r: "0 \<le> pos" "pos < 40"
    and t': "tile_type t' = tile_type t" "owner t' = owner t" "\<forall>q d. static_ok q d t' = static_ok q d t"
      "0 \<le> houses t'"
    and p': "name p' = name p" "position p' = position p" "properties p' = properties p"
  shows "wf_game (log_msg m ((set_player pk p' s)\<lparr>tiles := (tiles s)(pos \<mapsto> t')\<rparr>))"
    "buy_decision_inv (log_msg m ((set_player pk p' s)\<lparr>tiles := (tiles s)(pos \<mapsto> t')\<rparr>))"
proof -
  let ?s' = "log_msg m ((set_player pk p' s)\<lparr>tiles := (tiles s)(pos \<mapsto> t')\<rparr>)"
  from wf_current_player [OF wf] c have pk: "pk \<in> set (player_order s)" "players s pk = Some p" by auto
  have w1: "wf_game (set_player pk p' s)" by (rule wf_set_player_same [OF wf pk(2,1) p'])
  from wf_tile_at [OF wf r] t have "\<And>ow. owner t = Some ow \<Longrightarrow> ow \<in> set (player_order s)" by auto
  then have ow: "\<forall>ow. owner t' = Some ow \<longrightarrow> ow \<in> set (player_order (set_player pk p' s))"
    using t'(2) by simp
  show "wf_game ?s'"
    using wf_set_tile [OF w1, of pos t t'] t t' ow by simp
  show "buy_decision_inv ?s'"
    unfolding buy_decision_inv_def
  proof
    assume "phase ?s' = WAITING_FOR_BUY_DECISION"
    then have "on_unowned_ownable s" using inv by (simp add: buy_decision_inv_def)
    then show "on_unowned_ownable ?s'"
    proof (rule on_unowned_ownable_frame)
      fix n p0 assume "players s n = Some p0"
      then show "\<exists>p1. players ?s' n = Some p1 \<and> position p1 = position p0"
        using pk(2) p'(2) by (cases "n = pk") auto
    next
      fix q t0 assume "tiles s q = Some t0"
      then show "\<exists>t1. tiles ?s' q = Some t1 \<and> tile_type t1 = tile_type t0 \<and> owner t1 = owner t0"
        using t t'(1,2) by (cases "q = pos") auto
    qed simp_all
  qed
qed

lemma build_house_ok:
  assumes wf: "wf_game s" and inv: "buy_decision_inv s"
  shows "\<exists>s' r. build_house pos s = Inr (s', r) \<and> wf_game s' \<and> buy_decision_inv s'
           \<and> (has_error r \<longrightarrow> s' = s)"
proof -
  from wf_current_player [OF wf] obtain pk p where c: "current_player s = Inr (pk, p)"
    "\<And>q. q \<in> set (properties p) \<Longrightarrow> 0 \<le> q \<and> q < 40" by blast
  show ?thesis
  proof (cases "pos \<in> set (properties p)")
    case False
    from build_house_not_owned [OF c(1) False] show ?thesis using wf inv by blast
  next
    case True
    from c(2) [OF True] have r: "0 \<le> pos" "pos < 40" by simp_all
    from wf_tile_at [OF wf r] obtain t where t: "tiles s pos = Some t" "0 \<le> houses t" by blast
    show ?thesis
    proof (cases "buildable s p t")
      case False
      from build_house_refused [OF wf c(1) True t(1) False] show ?thesis using wf inv by blast
    next
      case ok: True
      let ?s1 = "(set_player pk (p\<lparr>money := money p - house_cost t\<rparr>) s)
                  \<lparr>tiles := (tiles s)(pos \<mapsto> t\<lparr>houses := houses t + 1\<rparr>)\<rparr>"
      from build_house_built [OF wf c(1) True t(1) ok] obtain m r where
        e: "build_house pos s = Inr (log_msg m ?s1, r)" "\<not> has_error r" by blast
      have "wf_game (log_msg m ?s1)"
        by (rule tile_dynamic_update_ok(1) [OF wf inv c(1) t(1) r]) (use t(2) in simp_all)
      moreover have "buy_decision_inv (log_msg m ?s1)"
        by (rule tile_dynamic_update_ok(2) [OF wf inv c(1) t(1) r]) (use t(2) in simp_all)
      ultimately show ?thesis using e by blast
    qed
  qed
qed

subsection \<open>Mortgaging and unmortgaging\<close>

lemma mortgage_property_effect:
  assumes c: "current_player s = Inr (pk, p)" and own: "pos \<in> set (properties p)"
    and t: "tiles s pos = Some t" and ok: "\<not> is_mortgaged t" "houses t \<le> 0"
  shows "\<exists>m r. mortgage_property pos s =
           Inr (log_msg m ((set_player pk (p\<lparr>money := money p + mortgage_value t\<rparr>) s)
                  \<lparr>tiles := (tiles s)(pos \<mapsto> t\<lparr>is_mortgaged := True\<rparr>)\<rparr>), r) \<and> \<not> has_error r"
proof -
  have e: "mortgage_property pos s =
      Inr (log_msg (name p @ '' mortgaged '' @ tile_name t @ '' for $'' @ str_int (mortgage_value t))
             ((set_player pk (p\<lparr>money := money p + mortgage_value t\<rparr>) s)
                \<lparr>tiles := (tiles s)(pos \<mapsto> t\<lparr>is_mortgaged := True\<rparr>)\<rparr>),
           [(''success'', PBool True), (''property'', PStr (tile_name t)),
            (''received'', PInt (mortgage_value t))])"
    using assms by (simp add: mortgage_property_def Let_def)
  show ?thesis unfolding e by (intro exI conjI, rule refl) simp
qed

lemma mortgage_property_refused:
  assumes c: "current_player s = Inr (pk, p)"
    and no: "pos \<notin> set (properties p) \<or> (\<exists>t. tiles s pos = Some t \<and> (is_mortgaged t \<or> houses t > 0))"
  shows "\<exists>r. mortgage_property pos s = Inr (s, r) \<and> has_error r"
  using assms by (auto simp: mortgage_property_def)

lemma unmortgage_property_effect:
  assumes c: "current_player s = Inr (pk, p)" and own: "pos \<in> set (properties p)"
    and t: "tiles s pos = Some t" and ok: "is_mortgaged t" "int_times_1_1 (mortgage_value t) \<le> money p"
  shows "\<exists>m r. unmortgage_property pos s =
           Inr (log_msg m ((set_player pk (p\<lparr>money := money p - int_times_1_1 (mortgage_value t)\<rparr>) s)
                  \<lparr>tiles := (tiles s)(pos \<mapsto> t\<lparr>is_mortgaged := False\<rparr>)\<rparr>), r) \<and> \<not> has_error r"
proof -
  have e: "unmortgage_property pos s =
      Inr (log_msg (name p @ '' unmortgaged '' @ tile_name t @ '' for $''
                      @ str_int (int_times_1_1 (mortgage_value t)))
             ((set_player pk (p\<lparr>money := money p - int_times_1_1 (mortgage_value t)\<rparr>) s)
                \<lparr>tiles := (tiles s)(pos \<mapsto> t\<lparr>is_mortgaged := False\<rparr>)\<rparr>),
           [(''success'', PBool True), (''property'', PStr (tile_name t)),
            (''cost'', PInt (int_times_1_1 (mortgage_value t)))])"
    using assms by (simp add: unmortgage_property_def Let_def)
  show ?thesis unfolding e by (intro exI conjI, rule refl) simp
qed

lemma unmortgage_property_refused:
  assumes c: "current_player s = Inr (pk, p)"
    and no: "pos \<notin> set (properties p)
       \<or> (\<exists>t. tiles s pos = Some t \<and> (\<not> is_mortgaged t \<or> money p < int_times_1_1 (mortgage_value t)))"
  shows "\<exists>r. unmortgage_property pos s = Inr (s, r) \<and> has_error r"
  using assms by (auto simp: unmortgage_property_def Let_def)

lemma mortgage_property_ok:
  assumes wf: "wf_game s" and inv: "buy_decision_inv s"
  shows "\<exists>s' r. mortgage_property pos s = Inr (s', r) \<and> wf_game s' \<and> buy_decision_inv s'
           \<and> (has_error r \<longrightarrow> s' = s)"
proof -
  from wf_current_player [OF wf] obtain pk p where c: "current_player s = Inr (pk, p)"
    "\<And>q. q \<in> set (properties p) \<Longrightarrow> 0 \<le> q \<and> q < 40" by blast
  show ?thesis
  proof (cases "pos \<in> set (properties p)")
    case False
    from mortgage_property_refused [OF c(1), of pos] False show ?thesis using wf inv by blast
  next
    case True
    from c(2) [OF True] have r: "0 \<le> pos" "pos < 40" by simp_all
    from wf_tile_at [OF wf r] obtain t where t: "tiles s pos = Some t" "0 \<le> houses t" by blast
    show ?thesis
    proof (cases "is_mortgaged t \<or> houses t > 0")
      case True
      with mortgage_property_refused [OF c(1), of pos] t(1) show ?thesis using wf inv by blast
    next
      case False
      let ?s1 = "(set_player pk (p\<lparr>money := money p + mortgage_value t\<rparr>) s)
                  \<lparr>tiles := (tiles s)(pos \<mapsto> t\<lparr>is_mortgaged := True\<rparr>)\<rparr>"
      from mortgage_property_effect [OF c(1) True t(1)] False obtain m r where
        e: "mortgage_property pos s = Inr (log_msg m ?s1, r)" "\<not> has_error r" by auto
      have "wf_game (log_msg m ?s1)"
        by (rule tile_dynamic_update_ok(1) [OF wf inv c(1) t(1) r]) (use t(2) in simp_all)
      moreover have "buy_decision_inv (log_msg m ?s1)"
        by (rule tile_dynamic_update_ok(2) [OF wf inv c(1) t(1) r]) (use t(2) in simp_all)
      ultimately show ?thesis using e by blast
    qed
  qed
qed

lemma unmortgage_property_ok:
  assumes wf: "wf_game s" and inv: "buy_decision_inv s"
  shows "\<exists>s' r. unmortgage_property pos s = Inr (s', r) \<and> wf_game s' \<and> buy_decision_inv s'
           \<and> (has_error r \<longrightarrow> s' = s)"
proof -
  from wf_current_player [OF wf] obtain pk p where c: "current_player s = Inr (pk, p)"
    "\<And>q. q \<in> set (properties p) \<Longrightarrow> 0 \<le> q \<and> q < 40" by blast
  show ?thesis
  proof (cases "pos \<in> set (properties p)")
    case False
    from unmortgage_property_refused [OF c(1), of pos] False show ?thesis using wf inv by blast
  next
    case True
    from c(2) [OF True] have r: "0 \<le> pos" "pos < 40" by simp_all
    from wf_tile_at [OF wf r] obtain t where t: "tiles s pos = Some t" "0 \<le> houses t" by blast
    show ?thesis
    proof (cases "\<not> is_mortgaged t \<or> money p < int_times_1_1 (mortgage_value t)")
      case True
      with unmortgage_property_refused [OF c(1), of pos] t(1) show ?thesis using wf inv by blast
    next
      case False
      let ?s1 = "(set_player pk (p\<lparr>money := money p - int_times_1_1 (mortgage_value t)\<rparr>) s)
                  \<lparr>tiles := (tiles s)(pos \<mapsto> t\<lparr>is_mortgaged := False\<rparr>)\<rparr>"
      from unmortgage_property_effect [OF c(1) True t(1)] False obtain m r where
        e: "unmortgage_property pos s = Inr (log_msg m ?s1, r)" "\<not> has_error r" by auto
      have "wf_game (log_msg m ?s1)"
        by (rule tile_dynamic_update_ok(1) [OF wf inv c(1) t(1) r]) (use t(2) in simp_all)
      moreover have "buy_decision_inv (log_msg m ?s1)"
        by (rule tile_dynamic_update_ok(2) [OF wf inv c(1) t(1) r]) (use t(2) in simp_all)
      ultimately show ?thesis using e by blast
    qed
  qed
qed

subsection \<open>Rotation of the players\<close>

lemma active_players_ok:
  "\<forall>n \<in> set ns. \<exists>p. players s n = Some p \<Longrightarrow> active_players s ns = Inr (filter (is_active s) ns)"
  by (induction ns) (auto simp: is_active_def)

lemma skip_bankrupt_finds:
  assumes pl: "\<forall>n \<in> set (player_order s). \<exists>p. players s n = Some p"
  shows "i < length (player_order s) \<Longrightarrow> k < n
     \<Longrightarrow> is_active s (player_order s ! ((i + k) mod length (player_order s)))
     \<Longrightarrow> \<forall>j < k. \<not> is_active s (player_order s ! ((i + j) mod length (player_order s)))
     \<Longrightarrow> skip_bankrupt n s i = Some (Inr ((i + k) mod length (player_order s)))"
proof (induction k arbitrary: i n)
  case 0
  then obtain n' where n: "n = Suc n'" by (cases n) auto
  from 0 have a: "is_active s (player_order s ! i)" by simp
  then show ?case using 0(1) n by (auto simp: is_active_def split: option.splits)
next
  case (Suc k)
  let ?L = "length (player_order s)"
  from Suc.prems obtain n' where n: "n = Suc n'" "k < n'" by (cases n) auto
  from Suc.prems(4) have na: "\<not> is_active s (player_order s ! i)"
    using Suc.prems(1) by (metis add.right_neutral mod_less zero_less_Suc)
  from pl Suc.prems(1) obtain p where p: "players s (player_order s ! i) = Some p" by (meson nth_mem)
  with na have b: "bankrupt p" by (simp add: is_active_def)
  have Lpos: "0 < ?L" using Suc.prems(1) by (cases "player_order s") auto
  have i': "(i + 1) mod ?L < ?L" using Lpos by (rule mod_less_divisor)
  have eq: "((i + 1) mod ?L + j) mod ?L = (i + Suc j) mod ?L" for j
    by (simp add: mod_add_left_eq)
  have "skip_bankrupt n' s ((i + 1) mod ?L) = Some (Inr (((i + 1) mod ?L + k) mod ?L))"
  proof (rule Suc.IH [OF i' n(2)])
    show "is_active s (player_order s ! (((i + 1) mod ?L + k) mod ?L))"
      using Suc.prems(3) unfolding eq by simp
    show "\<forall>j<k. \<not> is_active s (player_order s ! (((i + 1) mod ?L + j) mod ?L))"
      using Suc.prems(4) unfolding eq by auto
  qed
  then show ?case using n(1) Suc.prems(1) p b unfolding eq by simp
qed

lemma skip_bankrupt_ok:
  assumes pl: "\<forall>n \<in> set (player_order s). \<exists>p. players s n = Some p"
    and i: "i < length (player_order s)"
    and ex: "\<exists>n \<in> set (player_order s). is_active s n"
  shows "\<exists>k < length (player_order s).
      skip_bankrupt (length (player_order s)) s i = Some (Inr ((i + k) mod length (player_order s)))
      \<and> is_active s (player_order s ! ((i + k) mod length (player_order s)))
      \<and> (\<forall>j < k. \<not> is_active s (player_order s ! ((i + j) mod length (player_order s))))"
proof -
  let ?L = "length (player_order s)"
  let ?P = "\<lambda>k. is_active s (player_order s ! ((i + k) mod ?L))"
  from ex obtain m where m: "m < ?L" "is_active s (player_order s ! m)"
    by (auto simp: in_set_conv_nth)
  have "(i + (m + ?L - i)) mod ?L = m" using m(1) i by simp
  then have P0: "?P ((m + ?L - i) mod ?L)" using m(2) by (simp add: mod_add_right_eq)
  define k where "k = (LEAST k. ?P k)"
  have Pk: "?P k" unfolding k_def using P0 by (rule LeastI)
  have "k \<le> (m + ?L - i) mod ?L" unfolding k_def using P0 by (rule Least_le)
  moreover have "0 < ?L" using i by (cases "player_order s") auto
  then have "(m + ?L - i) mod ?L < ?L" by (rule mod_less_divisor)
  ultimately have kl: "k < ?L" by simp
  have least: "\<forall>j < k. \<not> ?P j" unfolding k_def using not_less_Least by blast
  from skip_bankrupt_finds [OF pl i kl Pk least] Pk least kl show ?thesis by blast
qed

lemma move_to_next_player_over:
  assumes wf: "wf_game s" and few: "length (filter (is_active s) (player_order s)) \<le> 1"
  shows "move_to_next_player s = Some (Inr (s\<lparr>phase := GAME_OVER\<rparr>,
          [(''game_over'', PBool True),
           (''winner'', (case filter (is_active s) (player_order s) of [] \<Rightarrow> PNone | w # ws \<Rightarrow> PStr w))]))"
proof -
  have pl: "\<forall>n \<in> set (player_order s). \<exists>q. players s n = Some q"
    using wf by (auto simp: wf_game_iff player_ok_iff)
  show ?thesis using active_players_ok [OF pl] few by (simp add: move_to_next_player_def)
qed

lemma move_to_next_player_advance:
  assumes wf: "wf_game s" and many: "1 < length (filter (is_active s) (player_order s))"
  obtains k np r where "k < length (player_order s)"
    "is_active s (player_order s ! ((current_player_idx s + 1 + k) mod length (player_order s)))"
    "\<forall>j < k. \<not> is_active s (player_order s ! ((current_player_idx s + 1 + j) mod length (player_order s)))"
    "players s (player_order s ! ((current_player_idx s + 1 + k) mod length (player_order s))) = Some np"
    "move_to_next_player s =
       Some (Inr (s\<lparr>current_player_idx := (current_player_idx s + 1 + k) mod length (player_order s),
                    turn_number := turn_number s + 1,
                    phase := (if in_jail np then IN_JAIL else WAITING_FOR_ROLL)\<rparr>, r))"
    "\<not> has_error r"
proof -
  let ?L = "length (player_order s)"
  have pl: "\<forall>n \<in> set (player_order s). \<exists>q. players s n = Some q"
    using wf by (auto simp: wf_game_iff player_ok_iff)
  from many have "filter (is_active s) (player_order s) \<noteq> []" by auto
  then have ex: "\<exists>n \<in> set (player_order s). is_active s n" by (metis filter_False)
  from wf have idx: "current_player_idx s < ?L" by (simp add: wf_game_iff)
  then have Lpos: "0 < ?L" by (cases "player_order s") auto
  have i0: "(current_player_idx s + 1) mod ?L < ?L" using Lpos by (rule mod_less_divisor)
  from skip_bankrupt_ok [OF pl i0 ex] obtain k where k: "k < ?L"
    "skip_bankrupt ?L s ((current_player_idx s + 1) mod ?L) = Some (Inr (((current_player_idx s + 1) mod ?L + k) mod ?L))"
    "is_active s (player_order s ! (((current_player_idx s + 1) mod ?L + k) mod ?L))"
    "\<forall>j < k. \<not> is_active s (player_order s ! (((current_player_idx s + 1) mod ?L + j) mod ?L))"
    by blast
  have eq: "((current_player_idx s + 1) mod ?L + j) mod ?L = (current_player_idx s + 1 + j) mod ?L" for j
    by (simp add: mod_add_left_eq)
  let ?i = "(current_player_idx s + 1 + k) mod ?L"
  have il: "?i < ?L" using Lpos by (rule mod_less_divisor)
  from k(3) obtain np where np: "players s (player_order s ! ?i) = Some np"
    unfolding eq by (auto simp: is_active_def split: option.splits)
  have cp: "current_player (s\<lparr>current_player_idx := ?i, turn_number := turn_number s + 1\<rparr>)
      = Inr (player_order s ! ?i, np)"
    using il np by (simp add: current_player_def)
  have sk: "skip_bankrupt ?L s ((current_player_idx s + 1) mod ?L) = Some (Inr ?i)"
    using k(2) unfolding eq .
  have nf: "\<not> length (filter (is_active s) (player_order s)) \<le> 1" using many by simp
  have "move_to_next_player s =
             Some (Inr (s\<lparr>current_player_idx := ?i, turn_number := turn_number s + 1,
                          phase := (if in_jail np then IN_JAIL else WAITING_FOR_ROLL)\<rparr>,
              [(''success'', PBool True), (''next_player'', PStr (name np)),
               (''turn'', PInt (turn_number s + 1)),
               (''phase'', PStr (GamePhase_value (if in_jail np then IN_JAIL else WAITING_FOR_ROLL)))]))"
    unfolding move_to_next_player_def active_players_ok [OF pl] using nf sk cp
    by (simp add: Let_def)
  then obtain r where mv: "move_to_next_player s =
             Some (Inr (s\<lparr>current_player_idx := ?i, turn_number := turn_number s + 1,
                          phase := (if in_jail np then IN_JAIL else WAITING_FOR_ROLL)\<rparr>, r))"
    and ne: "\<not> has_error r" by simp
  show ?thesis
    by (rule that [OF k(1) k(3) [unfolded eq] k(4) [unfolded eq] np mv ne])
qed

lemma end_turn_refused:
  "phase s \<noteq> TURN_COMPLETE \<Longrightarrow> \<exists>r. end_turn s = Some (Inr (s, r)) \<and> has_error r"
  by (simp add: end_turn_def)

lemma end_turn_marked:
  assumes ph: "phase s = TURN_COMPLETE" and c: "current_player s = Inr (pk, p)"
  shows "\<exists>s1. end_turn s = move_to_next_player s1
     \<and> players s1 = (players s)(pk \<mapsto> p\<lparr>doubles_count := 0, bankrupt := (bankrupt p \<or> money p < 0)\<rparr>)
     \<and> same_board s s1 \<and> chance_deck s1 = chance_deck s \<and> community_deck s1 = community_deck s
     \<and> phase s1 = phase s \<and> (wf_game s \<longrightarrow> wf_game s1)"
proof -
  from c have pk: "pk \<in> set (player_order s)" "players s pk = Some p"
    by (auto simp: current_player_def split: if_splits option.splits)
  show ?thesis
  proof (cases "money p < 0")
    case True
    let ?s1 = "log_msg (name p @ '' is BANKRUPT!'') (set_player pk (p\<lparr>doubles_count := 0, bankrupt := True\<rparr>) s)"
    have "end_turn s = move_to_next_player ?s1" using ph c True by (simp add: end_turn_def Let_def)
    moreover have "wf_game s \<longrightarrow> wf_game ?s1"
      using wf_set_player_same [OF _ pk(2,1), of "p\<lparr>doubles_count := 0, bankrupt := True\<rparr>"] by simp
    ultimately show ?thesis using True by (intro exI [of _ ?s1]) (simp add: same_board_def)
  next
    case False
    let ?s1 = "set_player pk (p\<lparr>doubles_count := 0\<rparr>) s"
    have "end_turn s = move_to_next_player ?s1" using ph c False by (simp add: end_turn_def Let_def)
    moreover have "wf_game s \<longrightarrow> wf_game ?s1"
      using wf_set_player_same [OF _ pk(2,1), of "p\<lparr>doubles_count := 0\<rparr>"] by simp
    ultimately show ?thesis using False by (intro exI [of _ ?s1]) (simp add: same_board_def)
  qed
qed

lemma wf_current_player_idx:
  "wf_game s \<Longrightarrow> i < length (player_order s) \<Longrightarrow> wf_game (s\<lparr>current_player_idx := i\<rparr>)"
  by (simp add: wf_game_iff tile_ok_iff player_ok_iff)

lemma end_turn_ok:
  assumes wf: "wf_game s" and inv: "buy_decision_inv s"
  shows "\<exists>s' r. end_turn s = Some (Inr (s', r)) \<and> wf_game s' \<and> buy_decision_inv s'
           \<and> (has_error r \<longrightarrow> s' = s)"
proof (cases "phase s = TURN_COMPLETE")
  case False
  from end_turn_refused [OF False] show ?thesis using wf inv by blast
next
  case True
  from wf_current_player [OF wf] obtain pk p where c: "current_player s = Inr (pk, p)" by blast
  from end_turn_marked [OF True c] wf obtain s1 where s1: "end_turn s = move_to_next_player s1"
    "same_board s s1" "wf_game s1" by blast
  show ?thesis
  proof (cases "length (filter (is_active s1) (player_order s1)) \<le> 1")
    case few: True
    show ?thesis unfolding s1(1) move_to_next_player_over [OF s1(3) few]
      using s1(3) by (simp add: buy_decision_inv_def)
  next
    case False
    then have many: "1 < length (filter (is_active s1) (player_order s1))" by simp
    from s1(3) have "0 < length (player_order s1)" by (cases "player_order s1") (auto simp: wf_game_iff)
    then have il: "(current_player_idx s1 + 1 + k) mod length (player_order s1) < length (player_order s1)" for k
      by (rule mod_less_divisor)
    show ?thesis
    proof (rule move_to_next_player_advance [OF s1(3) many])
      fix k np r
      assume e: "move_to_next_player s1 =
             Some (Inr (s1\<lparr>current_player_idx := (current_player_idx s1 + 1 + k) mod length (player_order s1),
                          turn_number := turn_number s1 + 1,
                          phase := (if in_jail np then IN_JAIL else WAITING_FOR_ROLL)\<rparr>, r))"
        and ne: "\<not> has_error r"
      from wf_current_player_idx [OF s1(3) il [of k]]
      show ?thesis unfolding s1(1) e using ne by (simp add: buy_decision_inv_def)
    qed
  qed
qed

subsection \<open>Rolling\<close>

lemma roll_and_move_refused:
  "phase s \<noteq> WAITING_FOR_ROLL \<Longrightarrow> \<exists>r. roll_and_move fuel sh d1 d2 s = Some (Inr (s, r)) \<and> has_error r"
  by (simp add: roll_and_move_def)

lemma roll_and_move_three_doubles:
  assumes ph: "phase s = WAITING_FOR_ROLL" and c: "current_player s = Inr (pk, p)"
    and d: "d1 = d2" "2 \<le> doubles_count p"
  shows "\<exists>m r. roll_and_move fuel sh d1 d2 s =
      Some (Inr (send_to_jail pk (p\<lparr>doubles_count := doubles_count p + 1\<rparr>) ''three doubles''
                   (log_msg m (s\<lparr>last_dice := (d1, d2)\<rparr>)), r))
      \<and> \<not> has_error r \<and> map_of r ''roll_again'' = None"
proof -
  have e: "roll_and_move fuel sh d1 d2 s =
      Some (Inr (send_to_jail pk (p\<lparr>doubles_count := doubles_count p + 1\<rparr>) ''three doubles''
                   (log_msg (name p @ '' rolled ['' @ str_int d1 @ '']['' @ str_int d2 @ ''] = ''
                        @ str_int (d1 + d2) @ '' DOUBLES!'') (s\<lparr>last_dice := (d1, d2)\<rparr>)),
                 [(''dice'', PList [PInt d1, PInt d2]), (''doubles'', PBool True),
                  (''result'', PStr ''Sent to jail for 3 doubles!'')]))"
    using ph c d by (simp add: roll_and_move_def Let_def)
  show ?thesis unfolding e by (intro exI conjI, rule refl) simp_all
qed

lemma roll_and_move_unfold:
  assumes ph: "phase s = WAITING_FOR_ROLL" and c: "current_player s = Inr (pk, p)"
    and nt: "\<not> (d1 = d2 \<and> 2 \<le> doubles_count p)"
    and t: "tiles s ((position p + (d1 + d2)) mod 40) = Some tile"
  shows "roll_and_move fuel sh d1 d2 s =
    (case handle_landing fuel sh
        (log_msg (name p @ '' landed on '' @ tile_name tile)
          (if (position p + (d1 + d2)) mod 40 < position p \<and> (position p + (d1 + d2)) mod 40 \<noteq> 10
           then log_msg (name p @ '' passed GO and collected $200'')
             (set_player pk (p\<lparr>doubles_count := (if d1 = d2 then doubles_count p + 1 else 0),
                  position := (position p + (d1 + d2)) mod 40,
                  money := money p + (if (position p + (d1 + d2)) mod 40 < position p
                                        \<and> (position p + (d1 + d2)) mod 40 \<noteq> 10 then 200 else 0)\<rparr>)
               (log_msg (name p @ '' rolled ['' @ str_int d1 @ '']['' @ str_int d2 @ ''] = ''
                        @ str_int (d1 + d2) @ (if d1 = d2 then '' DOUBLES!'' else ''''))
                        (s\<lparr>last_dice := (d1, d2)\<rparr>)))
           else
             set_player pk (p\<lparr>doubles_count := (if d1 = d2 then doubles_count p + 1 else 0),
                  position := (position p + (d1 + d2)) mod 40,
                  money := money p + (if (position p + (d1 + d2)) mod 40 < position p
                                        \<and> (position p + (d1 + d2)) mod 40 \<noteq> 10 then 200 else 0)\<rparr>)
               (log_msg (name p @ '' rolled ['' @ str_int d1 @ '']['' @ str_int d2 @ ''] = ''
                        @ str_int (d1 + d2) @ (if d1 = d2 then '' DOUBLES!'' else ''''))
                        (s\<lparr>last_dice := (d1, d2)\<rparr>))))
        pk tile (d1 + d2) of
       None \<Rightarrow> None
     | Some (Inl e) \<Rightarrow> Some (Inl e)
     | Some (Inr (s5, res)) \<Rightarrow>
         (case players s5 pk of
            None \<Rightarrow> Some (Inl KeyError)
          | Some p5 \<Rightarrow>
              let res1 = AList.update ''money'' (PInt (money p5))
                          (AList.update ''tile'' (PStr (tile_name tile))
                          (AList.update ''new_position'' (PInt (position p5))
                          (AList.update ''doubles'' (PBool (d1 = d2))
                          (AList.update ''dice'' (PList [PInt d1, PInt d2]) res))))
              in if d1 = d2 \<and> phase s5 = TURN_COMPLETE then
                   Some (Inr (s5\<lparr>phase := WAITING_FOR_ROLL\<rparr>, AList.update ''roll_again'' (PBool True) res1))
                 else Some (Inr (s5, res1))))"
proof (cases "d1 = d2")
  case True
  with nt have "\<not> 2 \<le> doubles_count p" by simp
  then show ?thesis using ph c t True
    by (simp add: roll_and_move_def Let_def cong: option.case_cong sum.case_cong)
next
  case False
  then show ?thesis using ph c t
    by (simp add: roll_and_move_def Let_def cong: option.case_cong sum.case_cong)
qed

lemma roll_and_move_moved:
  assumes ph: "phase s = WAITING_FOR_ROLL" and c: "current_player s = Inr (pk, p)"
    and nt: "\<not> (d1 = d2 \<and> 2 \<le> doubles_count p)"
    and t: "tiles s ((position p + (d1 + d2)) mod 40) = Some tile"
  obtains s4 where
    "players s4 = (players s)(pk \<mapsto> p\<lparr>doubles_count := (if d1 = d2 then doubles_count p + 1 else 0),
        position := (position p + (d1 + d2)) mod 40,
        money := money p + (if (position p + (d1 + d2)) mod 40 < position p
                              \<and> (position p + (d1 + d2)) mod 40 \<noteq> 10 then 200 else 0)\<rparr>)"
    "same_board (s\<lparr>last_dice := (d1, d2)\<rparr>) s4"
    "chance_deck s4 = chance_deck s" "community_deck s4 = community_deck s" "phase s4 = phase s"
    "handle_landing fuel sh s4 pk tile (d1 + d2) = None \<Longrightarrow> roll_and_move fuel sh d1 d2 s = None"
    "\<And>e. handle_landing fuel sh s4 pk tile (d1 + d2) = Some (Inl e) \<Longrightarrow> roll_and_move fuel sh d1 d2 s = Some (Inl e)"
    "\<And>s5 res p5. handle_landing fuel sh s4 pk tile (d1 + d2) = Some (Inr (s5, res)) \<Longrightarrow> players s5 pk = Some p5
       \<Longrightarrow> \<exists>r. roll_and_move fuel sh d1 d2 s =
               Some (Inr (if d1 = d2 \<and> phase s5 = TURN_COMPLETE then s5\<lparr>phase := WAITING_FOR_ROLL\<rparr> else s5, r))
             \<and> has_error r = has_error res
             \<and> map_of r ''roll_again'' = (if d1 = d2 \<and> phase s5 = TURN_COMPLETE then Some (PBool True)
                                            else map_of res ''roll_again'')"
proof -
  let ?new = "(position p + (d1 + d2)) mod 40"
  let ?passed = "?new < position p \<and> ?new \<noteq> 10"
  let ?p3 = "p\<lparr>doubles_count := (if d1 = d2 then doubles_count p + 1 else 0), position := ?new,
        money := money p + (if ?passed then 200 else 0)\<rparr>"
  let ?s1 = "log_msg (name p @ '' rolled ['' @ str_int d1 @ '']['' @ str_int d2 @ ''] = ''
                        @ str_int (d1 + d2) @ (if d1 = d2 then '' DOUBLES!'' else ''''))
                        (s\<lparr>last_dice := (d1, d2)\<rparr>)"
  let ?s2 = "set_player pk ?p3 ?s1"
  let ?s3 = "if ?passed then log_msg (name p @ '' passed GO and collected $200'') ?s2 else ?s2"
  let ?s4 = "log_msg (name p @ '' landed on '' @ tile_name tile) ?s3"
  note unf = roll_and_move_unfold [OF ph c nt t, of fuel sh]
  show ?thesis
  proof (rule that [of ?s4])
    show "players ?s4 = (players s)(pk \<mapsto> ?p3)" by simp
    show "same_board (s\<lparr>last_dice := (d1, d2)\<rparr>) ?s4" by (simp add: same_board_def)
    show "chance_deck ?s4 = chance_deck s" "community_deck ?s4 = community_deck s" "phase ?s4 = phase s"
      by simp_all
    show "handle_landing fuel sh ?s4 pk tile (d1 + d2) = None \<Longrightarrow> roll_and_move fuel sh d1 d2 s = None"
      unfolding unf by simp
    show "\<And>e. handle_landing fuel sh ?s4 pk tile (d1 + d2) = Some (Inl e) \<Longrightarrow> roll_and_move fuel sh d1 d2 s = Some (Inl e)"
      unfolding unf by simp
    show "\<exists>r. roll_and_move fuel sh d1 d2 s =
               Some (Inr (if d1 = d2 \<and> phase s5 = TURN_COMPLETE then s5\<lparr>phase := WAITING_FOR_ROLL\<rparr> else s5, r))
             \<and> has_error r = has_error res
             \<and> map_of r ''roll_again'' = (if d1 = d2 \<and> phase s5 = TURN_COMPLETE then Some (PBool True)
                                            else map_of res ''roll_again'')"
      if "handle_landing fuel sh ?s4 pk tile (d1 + d2) = Some (Inr (s5, res))" "players s5 pk = Some p5"
      for s5 res p5
      unfolding unf using that by (simp add: Let_def update_conv')
  qed
qed

lemma wf_game_player_frame:
  assumes "wf_game s" "same_board s0 s'" "player_order s0 = player_order s"
    "current_player_idx s0 = current_player_idx s" "tiles s0 = tiles s"
    "chance_deck s' = chance_deck s" "community_deck s' = community_deck s"
    "players s' = (players s)(pk \<mapsto> p')" "pk \<in> set (player_order s)" "name p' = pk"
    "0 \<le> position p'" "position p' < 40" "\<forall>q \<in> set (properties p'). 0 \<le> q \<and> q < 40"
  shows "wf_game s'"
  using assms by (auto simp: wf_game_iff tile_ok_iff player_ok_iff same_board_def)

lemma landing_post_inv:
  assumes "landing_post s pk s'" "current_player s = Inr (pk, p)"
  shows "buy_decision_inv s'"
proof -
  from assms(1) have sb: "player_order s' = player_order s" "current_player_idx s' = current_player_idx s"
    and w: "wf_game s'"
    by (simp_all add: landing_post_def same_board_def)
  from assms(2) have i: "current_player_idx s < length (player_order s)" "pk = player_order s ! current_player_idx s"
    by (auto simp: current_player_def split: if_splits option.splits)
  show ?thesis unfolding buy_decision_inv_def
  proof
    assume "phase s' = WAITING_FOR_BUY_DECISION"
    with assms(1) obtain p' t where "players s' pk = Some p'" "tiles s' (position p') = Some t"
      "tile_type t = PROPERTY \<or> tile_type t = RAILROAD \<or> tile_type t = UTILITY" "owner t = None"
      by (auto simp: landing_post_def split: option.splits)
    then show "on_unowned_ownable s'" using i sb
      by (simp add: on_unowned_ownable_def current_player_def)
  qed
qed

lemma roll_and_move_ok:
  assumes wf: "wf_game s" and inv: "buy_decision_inv s" and sh: "fair_shuffle sh" and fuel: "3 \<le> fuel"
  shows "\<exists>s' r. roll_and_move fuel sh d1 d2 s = Some (Inr (s', r)) \<and> wf_game s' \<and> buy_decision_inv s'
           \<and> (has_error r \<longrightarrow> s' = s)"
proof (cases "phase s = WAITING_FOR_ROLL")
  case False
  from roll_and_move_refused [OF False] show ?thesis using wf inv by blast
next
  case ph: True
  from wf_current_player [OF wf] obtain pk p where c: "current_player s = Inr (pk, p)"
    "pk \<in> set (player_order s)" "players s pk = Some p" "name p = pk" "0 \<le> position p" "position p < 40"
    "\<And>q. q \<in> set (properties p) \<Longrightarrow> 0 \<le> q \<and> q < 40" by blast
  show ?thesis
  proof (cases "d1 = d2 \<and> 2 \<le> doubles_count p")
    case True
    from roll_and_move_three_doubles [OF ph c(1), of d1 d2 fuel sh] True obtain m r where
      e: "roll_and_move fuel sh d1 d2 s =
        Some (Inr (send_to_jail pk (p\<lparr>doubles_count := doubles_count p + 1\<rparr>) ''three doubles''
                   (log_msg m (s\<lparr>last_dice := (d1, d2)\<rparr>)), r))" "\<not> has_error r"
      by blast
    have "wf_game (set_player pk (p\<lparr>doubles_count := doubles_count p + 1, position := 10, in_jail := True,
             jail_turns := 0, doubles_count := 0\<rparr>) (log_msg m (s\<lparr>last_dice := (d1, d2)\<rparr>)))"
      by (rule wf_set_player) (use wf c in auto)
    then have "wf_game (send_to_jail pk (p\<lparr>doubles_count := doubles_count p + 1\<rparr>) ''three doubles''
                   (log_msg m (s\<lparr>last_dice := (d1, d2)\<rparr>)))"
      by (simp add: send_to_jail_def)
    then show ?thesis unfolding e(1) using e(2) by (simp add: buy_decision_inv_def)
  next
    case nt: False
    let ?new = "(position p + (d1 + d2)) mod 40"
    have r: "0 \<le> ?new" "?new < 40" by simp_all
    from wf_tile_at [OF wf r] obtain tile where t: "tiles s ?new = Some tile" by blast
    show ?thesis
    proof (rule roll_and_move_moved [OF ph c(1) nt t, of fuel sh])
      fix s4
      let ?p3 = "p\<lparr>doubles_count := (if d1 = d2 then doubles_count p + 1 else 0), position := ?new,
        money := money p + (if ?new < position p \<and> ?new \<noteq> 10 then 200 else 0)\<rparr>"
      assume a: "players s4 = (players s)(pk \<mapsto> ?p3)" "same_board (s\<lparr>last_dice := (d1, d2)\<rparr>) s4"
        "chance_deck s4 = chance_deck s" "community_deck s4 = community_deck s" "phase s4 = phase s"
        and fin: "\<And>s5 res p5. handle_landing fuel sh s4 pk tile (d1 + d2) = Some (Inr (s5, res)) \<Longrightarrow> players s5 pk = Some p5
       \<Longrightarrow> \<exists>r. roll_and_move fuel sh d1 d2 s =
               Some (Inr (if d1 = d2 \<and> phase s5 = TURN_COMPLETE then s5\<lparr>phase := WAITING_FOR_ROLL\<rparr> else s5, r))
             \<and> has_error r = has_error res
             \<and> map_of r ''roll_again'' = (if d1 = d2 \<and> phase s5 = TURN_COMPLETE then Some (PBool True)
                                            else map_of res ''roll_again'')"
      have w4: "wf_game s4"
        by (rule wf_game_player_frame [OF wf a(2) _ _ _ a(3,4) a(1) c(2)]) (use c r in auto)
      have sb4: "player_order s4 = player_order s" "current_player_idx s4 = current_player_idx s"
        "tiles s4 = tiles s"
        using a(2) by (simp_all add: same_board_def)
      have pk4: "pk \<in> set (player_order s4)" using c(2) sb4 by simp
      have p4: "players s4 pk = Some ?p3" using a(1) by simp
      have t4: "tiles s4 (position ?p3) = Some tile" using t sb4 by simp
      have c4: "current_player s4 = Inr (pk, ?p3)"
        using c(1) sb4 p4 by (auto simp: current_player_def split: if_splits option.splits)
      from landing_ok [OF w4 pk4 p4 t4 sh fuel, of "d1 + d2"] obtain s5 res where
        l: "handle_landing fuel sh s4 pk tile (d1 + d2) = Some (Inr (s5, res))" "landing_post s4 pk s5"
          "\<not> has_error res" by blast
      from l(2) have w5: "wf_game s5" and o5: "player_order s5 = player_order s4"
        by (simp_all add: landing_post_def same_board_def)
      from wf_playerD [OF w5, of pk] pk4 o5 obtain p5 where p5: "players s5 pk = Some p5" by auto
      from fin [OF l(1) p5] obtain r where fr: "roll_and_move fuel sh d1 d2 s =
               Some (Inr (if d1 = d2 \<and> phase s5 = TURN_COMPLETE then s5\<lparr>phase := WAITING_FOR_ROLL\<rparr> else s5, r))"
          "has_error r = has_error res" by blast
      have i5: "buy_decision_inv s5" by (rule landing_post_inv [OF l(2) c4])
      show ?thesis
      proof (cases "d1 = d2 \<and> phase s5 = TURN_COMPLETE")
        case True
        then have "roll_and_move fuel sh d1 d2 s = Some (Inr (s5\<lparr>phase := WAITING_FOR_ROLL\<rparr>, r))"
          using fr(1) by simp
        then show ?thesis using w5 fr(2) l(3) by (simp add: buy_decision_inv_def)
      next
        case False
        then have "roll_and_move fuel sh d1 d2 s = Some (Inr (s5, r))"
          using fr(1) by simp
        then show ?thesis using w5 i5 fr(2) l(3) by simp
      qed
    qed
  qed
qed

subsection \<open>Depth of the landing resolution\<close>

text \<open>More depth never changes a result.\<close>

lemma card_effect_shape:
  "(\<exists>x. \<forall>l. card_effect l sh s pk p c = x)
    \<or> (\<exists>s2 t d. \<forall>l. card_effect l sh s pk p c = l sh s2 pk t d)"
proof (cases c)
  case (Move dst tx)
  let ?p2 = "if dst < position p then p\<lparr>position := dst, money := money p + 200\<rparr> else p\<lparr>position := dst\<rparr>"
  let ?s2 = "(set_player pk ?p2 s)\<lparr>phase := TURN_COMPLETE\<rparr>"
  show ?thesis
  proof (cases "tiles s dst")
    case None
    then have "\<forall>l. card_effect l sh s pk p c = Some (Inl KeyError)"
      using Move by (simp add: card_effect_def Let_def)
    then show ?thesis by blast
  next
    case (Some t)
    then have "\<forall>l. card_effect l sh s pk p c = l sh ?s2 pk t (fst (last_dice s) + snd (last_dice s))"
      using Move by (simp add: card_effect_def Let_def)
    then show ?thesis by blast
  qed
next
  case (MoveBack sp tx)
  let ?p1 = "p\<lparr>position := (position p - sp) mod 40\<rparr>"
  let ?s2 = "(set_player pk ?p1 s)\<lparr>phase := TURN_COMPLETE\<rparr>"
  show ?thesis
  proof (cases "tiles s ((position p - sp) mod 40)")
    case None
    then have "\<forall>l. card_effect l sh s pk p c = Some (Inl KeyError)"
      using MoveBack by (simp add: card_effect_def Let_def)
    then show ?thesis by blast
  next
    case (Some t)
    then have "\<forall>l. card_effect l sh s pk p c = l sh ?s2 pk t (fst (last_dice s) + snd (last_dice s))"
      using MoveBack by (simp add: card_effect_def Let_def)
    then show ?thesis by blast
  qed
next
  case (Money amount tx)
  then show ?thesis by (simp add: card_effect_def)
next
  case (JailCard tx)
  then show ?thesis by (simp add: card_effect_def)
next
  case (GoToJailCard tx)
  then show ?thesis by (simp add: card_effect_def)
qed

lemma draw_card_body_shape:
  "(\<exists>x. \<forall>l. draw_card_body l sh s pk ct = x)
    \<or> (\<exists>sh1 s2 t d. \<forall>l. draw_card_body l sh s pk ct = l sh1 s2 pk t d)"
proof (cases "players s pk")
  case None
  then show ?thesis by (simp add: draw_card_body_def)
next
  case (Some p)
  define pers where "pers = (if ct = CHANCE then chance_deck s else community_deck s)"
  define deck where "deck = (if pers = [] then sh 0 (if ct = CHANCE then CHANCE_CARDS else COMMUNITY_CARDS) else pers)"
  define sh1 where "sh1 = (if pers = [] then (\<lambda>k. sh (Suc k)) else sh)"
  show ?thesis
  proof (cases deck)
    case Nil
    from Nil [unfolded deck_def pers_def] Some
    have "\<forall>l. draw_card_body l sh s pk ct = Some (Inl IndexError)"
      by (simp add: draw_card_body_def Let_def split del: if_split)
    then show ?thesis by blast
  next
    case (Cons c remaining)
    define s1 where "s1 = log_msg (name p @ '' drew: '' @ card_text c)
       (if pers = [] then s else if ct = CHANCE then s\<lparr>chance_deck := remaining\<rparr>
               else s\<lparr>community_deck := remaining\<rparr>)"
    have e: "draw_card_body l sh s pk ct = card_effect l sh1 s1 pk p c" for l
      using Some Cons [unfolded deck_def pers_def]
      unfolding sh1_def s1_def pers_def
      by (simp add: draw_card_body_def Let_def split del: if_split)
    from card_effect_shape [of sh1 s1 pk p c]
    consider x where "\<forall>l. card_effect l sh1 s1 pk p c = x"
      | s2 t d where "\<forall>l. card_effect l sh1 s1 pk p c = l sh1 s2 pk t d" by blast
    then show ?thesis unfolding e by cases blast+
  qed
qed

lemma draw_card_body_mono:
  assumes m: "\<And>sh s pk t d x. l1 sh s pk t d = Some x \<Longrightarrow> l2 sh s pk t d = Some x"
    and r: "draw_card_body l1 sh s pk ct = Some x"
  shows "draw_card_body l2 sh s pk ct = Some x"
proof -
  from draw_card_body_shape [of sh s pk ct]
  consider y where "\<forall>l. draw_card_body l sh s pk ct = y"
    | sh1 s2 t d where "\<forall>l. draw_card_body l sh s pk ct = l sh1 s2 pk t d" by blast
  then show ?thesis
  proof cases
    case 1
    then show ?thesis using r by simp
  next
    case 2
    then have "l1 sh1 s2 pk t d = Some x" using r by simp
    from m [OF this] show ?thesis using 2 by simp
  qed
qed

lemma handle_landing_Suc:
  "handle_landing (Suc n) sh s pk tile d =
     (if players s pk \<noteq> None \<and> (tile_type tile = CHANCE \<or> tile_type tile = COMMUNITY_CHEST)
      then draw_card_body (handle_landing n) sh s pk (tile_type tile)
      else handle_landing (Suc 0) sh s pk tile d)"
  by (auto split: option.splits)

lemma handle_landing_mono_Suc:
  "handle_landing n sh s pk tile d = Some x \<Longrightarrow> handle_landing (Suc n) sh s pk tile d = Some x"
proof (induction n arbitrary: sh s pk tile d x)
  case 0
  then show ?case by simp
next
  case (Suc n)
  show ?case
  proof (cases "players s pk \<noteq> None \<and> (tile_type tile = CHANCE \<or> tile_type tile = COMMUNITY_CHEST)")
    case True
    from Suc.prems have "draw_card_body (handle_landing n) sh s pk (tile_type tile) = Some x"
      unfolding handle_landing_Suc [of n] if_P [OF True] .
    then have "draw_card_body (handle_landing (Suc n)) sh s pk (tile_type tile) = Some x"
      by (rule draw_card_body_mono [rotated]) (rule Suc.IH)
    then show ?thesis unfolding handle_landing_Suc [of "Suc n"] if_P [OF True] .
  next
    case False
    from Suc.prems have "handle_landing (Suc 0) sh s pk tile d = Some x"
      unfolding handle_landing_Suc [of n] if_not_P [OF False] .
    then show ?thesis unfolding handle_landing_Suc [of "Suc n"] if_not_P [OF False] .
  qed
qed

lemma handle_landing_mono:
  "handle_landing n sh s pk tile d = Some x \<Longrightarrow> handle_landing (n + k) sh s pk tile d = Some x"
  by (induction k) (auto dest: handle_landing_mono_Suc)

lemma option_case_mono:
  assumes u: "\<And>n. f n = (case h n of None \<Rightarrow> None | Some y \<Rightarrow> g y)"
    and m: "\<And>y. h n = Some y \<Longrightarrow> h (n + k) = Some y"
    and r: "f n = Some x"
  shows "f (n + k) = Some x"
proof (cases "h n")
  case None
  with r u [of n] show ?thesis by simp
next
  case (Some y)
  with r u [of n] have g: "g y = Some x" by simp
  from m [OF Some] have "h (n + k) = Some y" .
  with u [of "n + k"] g show ?thesis by simp
qed

lemma roll_and_move_mono:
  assumes r: "roll_and_move n sh d1 d2 s = Some x"
  shows "roll_and_move (n + k) sh d1 d2 s = Some x"
proof (cases "phase s = WAITING_FOR_ROLL")
  case False
  then have "roll_and_move (n + k) sh d1 d2 s = roll_and_move n sh d1 d2 s"
    by (cases "phase s = IN_JAIL") (simp_all add: roll_and_move_def)
  with r show ?thesis by simp
next
  case ph: True
  show ?thesis
  proof (cases "current_player s")
    case (Inl e)
    then have "roll_and_move (n + k) sh d1 d2 s = roll_and_move n sh d1 d2 s"
      using ph by (simp add: roll_and_move_def)
    with r show ?thesis by simp
  next
    case (Inr a)
    then obtain pk p where c: "current_player s = Inr (pk, p)" by (cases a) auto
    show ?thesis
    proof (cases "d1 = d2 \<and> 2 \<le> doubles_count p")
      case True
      then have "roll_and_move (n + k) sh d1 d2 s = roll_and_move n sh d1 d2 s"
        using ph c by (simp add: roll_and_move_def Let_def)
      with r show ?thesis by simp
    next
      case nt: False
      show ?thesis
      proof (cases "tiles s ((position p + (d1 + d2)) mod 40)")
        case None
        have "roll_and_move (n + k) sh d1 d2 s = roll_and_move n sh d1 d2 s"
        proof (cases "d1 = d2")
          case True
          with nt have "\<not> 2 \<le> doubles_count p" by simp
          then show ?thesis using ph c None True
            by (simp add: roll_and_move_def Let_def cong: option.case_cong sum.case_cong)
        next
          case False
          then show ?thesis using ph c None
            by (simp add: roll_and_move_def Let_def cong: option.case_cong sum.case_cong)
        qed
        with r show ?thesis by simp
      next
        case (Some tile)
        show ?thesis
          by (rule option_case_mono [where f = "\<lambda>n. roll_and_move n sh d1 d2 s",
                OF roll_and_move_unfold [OF ph c nt Some] handle_landing_mono r])
      qed
    qed
  qed
qed

lemma step_mono:
  "step n sh d1 d2 a s = Some x \<Longrightarrow> step (n + k) sh d1 d2 a s = Some x"
  by (cases a) (simp_all add: roll_and_move_mono)

subsection \<open>The initial state and the reachable states\<close>

lemma fold_players_frame:
  "player_order (fold (\<lambda>n g. g\<lparr>players := (players g)(n \<mapsto> new_Player n)\<rparr>) ns g) = player_order g"
  "current_player_idx (fold (\<lambda>n g. g\<lparr>players := (players g)(n \<mapsto> new_Player n)\<rparr>) ns g) = current_player_idx g"
  "phase (fold (\<lambda>n g. g\<lparr>players := (players g)(n \<mapsto> new_Player n)\<rparr>) ns g) = phase g"
  "tiles (fold (\<lambda>n g. g\<lparr>players := (players g)(n \<mapsto> new_Player n)\<rparr>) ns g) = tiles g"
  "chance_deck (fold (\<lambda>n g. g\<lparr>players := (players g)(n \<mapsto> new_Player n)\<rparr>) ns g) = chance_deck g"
  "community_deck (fold (\<lambda>n g. g\<lparr>players := (players g)(n \<mapsto> new_Player n)\<rparr>) ns g) = community_deck g"
  by (induction ns arbitrary: g) simp_all

lemma fold_players_lookup:
  "players (fold (\<lambda>n g. g\<lparr>players := (players g)(n \<mapsto> new_Player n)\<rparr>) ns g) k =
     (if k \<in> set ns then Some (new_Player k) else players g k)"
  by (induction ns arbitrary: g) auto

lemma fold_tiles_frame:
  "player_order (fold (\<lambda>e g. g\<lparr>tiles := (tiles g)(fst e \<mapsto> property_of_data (fst e) (snd e)),
      messages := messages g @ [m g]\<rparr>) es g) = player_order g"
  "current_player_idx (fold (\<lambda>e g. g\<lparr>tiles := (tiles g)(fst e \<mapsto> property_of_data (fst e) (snd e)),
      messages := messages g @ [m g]\<rparr>) es g) = current_player_idx g"
  "phase (fold (\<lambda>e g. g\<lparr>tiles := (tiles g)(fst e \<mapsto> property_of_data (fst e) (snd e)),
      messages := messages g @ [m g]\<rparr>) es g) = phase g"
  "players (fold (\<lambda>e g. g\<lparr>tiles := (tiles g)(fst e \<mapsto> property_of_data (fst e) (snd e)),
      messages := messages g @ [m g]\<rparr>) es g) = players g"
  "chance_deck (fold (\<lambda>e g. g\<lparr>tiles := (tiles g)(fst e \<mapsto> property_of_data (fst e) (snd e)),
      messages := messages g @ [m g]\<rparr>) es g) = chance_deck g"
  "community_deck (fold (\<lambda>e g. g\<lparr>tiles := (tiles g)(fst e \<mapsto> property_of_data (fst e) (snd e)),
      messages := messages g @ [m g]\<rparr>) es g) = community_deck g"
  by (induction es arbitrary: g) simp_all

lemma fold_tiles_lookup:
  "distinct (map fst es) \<Longrightarrow>
   tiles (fold (\<lambda>e g. g\<lparr>tiles := (tiles g)(fst e \<mapsto> property_of_data (fst e) (snd e)),
      messages := messages g @ [m g]\<rparr>) es g) k =
     (case map_of es k of None \<Rightarrow> tiles g k | Some d \<Rightarrow> Some (property_of_data k d))"
proof (induction es arbitrary: g)
  case Nil
  then show ?case by simp
next
  case (Cons e es)
  then have "map_of es (fst e) = None" by (simp add: map_of_eq_None_iff)
  with Cons show ?case by (cases e) (auto split: option.splits)
qed

lemma initialize_fields:
  "player_order (fst (initialize names sh)) = names"
  "current_player_idx (fst (initialize names sh)) = 0"
  "phase (fst (initialize names sh)) = WAITING_FOR_ROLL"
  "chance_deck (fst (initialize names sh)) = sh 0 CHANCE_CARDS"
  "community_deck (fst (initialize names sh)) = sh 1 COMMUNITY_CARDS"
  "players (fst (initialize names sh)) k = (if k \<in> set names then Some (new_Player k) else None)"
  by (simp_all add: initialize_def Let_def new_engine_def fold_tiles_frame fold_players_frame
      fold_players_lookup)

lemma initialize_tiles:
  "tiles (fst (initialize names sh)) k =
     (case map_of TILE_DATA k of None \<Rightarrow> None | Some d \<Rightarrow> Some (property_of_data k d))"
proof -
  have d: "distinct (map fst TILE_DATA)" by (simp add: catalog_keys)
  show ?thesis
    by (simp add: initialize_def Let_def fold_tiles_lookup [OF d] fold_players_frame new_engine_def
        split: option.splits)
qed

lemma initialize_wf:
  assumes "names \<noteq> []" "fair_shuffle sh"
  shows "wf_game (fst (initialize names sh))"
proof -
  have t: "tile_ok (fst (initialize names sh)) e" if "e \<in> set TILE_DATA" for e
  proof -
    obtain pos d where e: "e = (pos, d)" by (cases e)
    with that have "map_of TILE_DATA pos = Some d" by (simp add: catalog_map_of)
    then show ?thesis
      by (simp add: tile_ok_iff e initialize_tiles static_ok_def property_of_data_def)
  qed
  have p: "player_ok (fst (initialize names sh)) n" if "n \<in> set names" for n
    using that by (simp add: player_ok_iff initialize_fields new_Player_def)
  show ?thesis using assms t p
    by (simp add: wf_game_iff initialize_fields fair_shuffle_set)
qed

lemma initialize_inv: "buy_decision_inv (fst (initialize names sh))"
  by (simp add: buy_decision_inv_def initialize_fields)

lemma step_ok:
  assumes wf: "wf_game s" and inv: "buy_decision_inv s" and sh: "fair_shuffle sh" and fuel: "3 \<le> fuel"
  shows "\<exists>s' r. step fuel sh d1 d2 a s = Some (Inr (s', r)) \<and> wf_game s' \<and> buy_decision_inv s'
           \<and> (has_error r \<longrightarrow> s' = s)"
proof (cases a)
  case RollAndMove
  then show ?thesis using roll_and_move_ok [OF wf inv sh fuel, of d1 d2] by simp
next
  case BuyCurrentProperty
  then show ?thesis using buy_current_property_ok [OF wf inv] by simp
next
  case DeclinePurchase
  then show ?thesis using decline_purchase_ok [OF wf inv] by simp
next
  case PayBail
  then show ?thesis using pay_bail_ok [OF wf inv] by simp
next
  case UseJailCard
  then show ?thesis using use_jail_card_ok [OF wf inv] by simp
next
  case RollForDoubles
  then show ?thesis using roll_for_doubles_ok [OF wf inv, of d1 d2] by simp
next
  case (BuildHouse pos)
  then show ?thesis using build_house_ok [OF wf inv, of pos] by simp
next
  case (MortgageProperty pos)
  then show ?thesis using mortgage_property_ok [OF wf inv, of pos] by simp
next
  case (UnmortgageProperty pos)
  then show ?thesis using unmortgage_property_ok [OF wf inv, of pos] by simp
next
  case EndTurn
  then show ?thesis using end_turn_ok [OF wf inv] by simp
next
  case (GetPropertyInfo pos)
  then show ?thesis using get_property_info_ok [of pos s] wf inv by auto
qed

lemma step_fuel_irrelevant:
  assumes wf: "wf_game s" and inv: "buy_decision_inv s" and sh: "fair_shuffle sh"
    and r: "step fuel sh d1 d2 a s = Some x"
  shows "\<exists>s' r. x = Inr (s', r) \<and> wf_game s' \<and> buy_decision_inv s' \<and> (has_error r \<longrightarrow> s' = s)"
proof -
  from step_ok [OF wf inv sh, of "fuel + 3" d1 d2 a]
  obtain s' r' where s': "step (fuel + 3) sh d1 d2 a s = Some (Inr (s', r'))" "wf_game s'"
    "buy_decision_inv s'" "has_error r' \<longrightarrow> s' = s" by auto
  from step_mono [OF r, of 3] s'(1) have "x = Inr (s', r')" by simp
  with s' show ?thesis by blast
qed

lemma reachable_inv: "reachable s \<Longrightarrow> wf_game s \<and> buy_decision_inv s"
proof (induction rule: reachable.induct)
  case (start player_names sh)
  then show ?case by (simp add: initialize_wf initialize_inv)
next
  case (next_step s sh d1 d2 fuel a s' r)
  from step_fuel_irrelevant [OF _ _ next_step(2) next_step(5)] next_step.IH
  show ?case by simp
qed

subsection \<open>The example games\<close>

lemma mset_rotate1_eq: "mset (rotate1 xs) = mset xs"
  by (cases xs) simp_all

lemma mset_rotate_eq: "mset (rotate n xs) = mset xs"
  by (induction n) (simp_all add: mset_rotate1_eq)

lemma demo_shuffle_fair: "fair_shuffle demo_shuffle"
  by (simp add: fair_shuffle_def demo_shuffle_def mset_rotate_eq)

lemma demo_start_reachable: "reachable demo_start"
  unfolding demo_start_def by (rule reachable.start) (simp_all add: demo_shuffle_fair)

lemma demo_start_wf: "wf_game demo_start"
  unfolding demo_start_def by (rule initialize_wf) (simp_all add: demo_shuffle_fair)

lemma demo_start_fields:
  "player_order demo_start = [''A'', ''B'', ''C'']"
  "current_player_idx demo_start = 0"
  "phase demo_start = WAITING_FOR_ROLL"
  "players demo_start ''A'' = Some (new_Player ''A'')"
  "players demo_start ''B'' = Some (new_Player ''B'')"
  "players demo_start ''C'' = Some (new_Player ''C'')"
  "chance_deck demo_start = rotate 6 CHANCE_CARDS"
  "community_deck demo_start = rotate 6 COMMUNITY_CARDS"
  by (simp_all add: demo_start_def initialize_fields demo_shuffle_def)

lemma demo_start_current: "current_player demo_start = Inr (''A'', new_Player ''A'')"
  by (simp add: current_player_def demo_start_fields)

lemma demo_start_tile:
  "map_of TILE_DATA k = Some d \<Longrightarrow> tiles demo_start k = Some (property_of_data k d)"
  by (simp add: demo_start_def initialize_tiles)

lemma catalog_demo_types:
  "map_option td_type (map_of TILE_DATA 1) = Some PROPERTY"
  "map_option td_type (map_of TILE_DATA 2) = Some COMMUNITY_CHEST"
  "map_option td_type (map_of TILE_DATA 3) = Some PROPERTY"
  by code_simp+

lemma catalog_lookup:
  assumes "map_option td_type (map_of TILE_DATA k) = Some ty"
  obtains d where "map_of TILE_DATA k = Some d" "td_type d = ty"
  using assms by (cases "map_of TILE_DATA k") auto

lemma demo_first_roll:
  "\<exists>s r. roll_and_move 3 demo_shuffle 1 2 demo_start = Some (Inr (s, r))
       \<and> phase s = WAITING_FOR_BUY_DECISION"
proof -
  obtain d where d: "map_of TILE_DATA 3 = Some d" "td_type d = PROPERTY"
    by (rule catalog_lookup [OF catalog_demo_types(3)])
  let ?tile = "property_of_data 3 d"
  have t: "tiles demo_start ((position (new_Player ''A'') + (1 + 2)) mod 40) = Some ?tile"
    using demo_start_tile [OF d(1)] by (simp add: new_Player_def)
  show ?thesis
  proof (rule roll_and_move_moved [OF demo_start_fields(3) demo_start_current _ t, of 3 demo_shuffle])
    show "\<not> ((1::int) = 2 \<and> 2 \<le> doubles_count (new_Player ''A''))" by simp
  next
    fix s4
    assume pl: "players s4 = (players demo_start)(''A'' \<mapsto> (new_Player ''A'')
          \<lparr>doubles_count := (if (1::int) = 2 then doubles_count (new_Player ''A'') + 1 else 0),
            position := (position (new_Player ''A'') + (1 + 2)) mod 40,
            money := money (new_Player ''A'') + (if (position (new_Player ''A'') + (1 + 2)) mod 40 < position (new_Player ''A'')
                              \<and> (position (new_Player ''A'') + (1 + 2)) mod 40 \<noteq> 10 then 200 else 0)\<rparr>)"
      and fin: "\<And>s5 res p5. handle_landing 3 demo_shuffle s4 ''A'' ?tile (1 + 2) = Some (Inr (s5, res)) \<Longrightarrow>
         players s5 ''A'' = Some p5 \<Longrightarrow>
         \<exists>r. roll_and_move 3 demo_shuffle 1 2 demo_start =
               Some (Inr (if (1::int) = 2 \<and> phase s5 = TURN_COMPLETE then s5\<lparr>phase := WAITING_FOR_ROLL\<rparr> else s5, r))
             \<and> has_error r = has_error res
             \<and> map_of r ''roll_again'' = (if (1::int) = 2 \<and> phase s5 = TURN_COMPLETE then Some (PBool True)
                                            else map_of res ''roll_again'')"
    from pl obtain p4 where p4: "players s4 ''A'' = Some p4" by simp
    have "\<exists>res. handle_landing 3 demo_shuffle s4 ''A'' ?tile (1 + 2)
            = Some (Inr (s4\<lparr>phase := WAITING_FOR_BUY_DECISION\<rparr>, res))"
      using p4 d(2) by (simp add: numeral_3_eq_3 property_of_data_def)
    then obtain res where "handle_landing 3 demo_shuffle s4 ''A'' ?tile (1 + 2)
            = Some (Inr (s4\<lparr>phase := WAITING_FOR_BUY_DECISION\<rparr>, res))" ..
    from fin [OF this, of p4] p4 show ?thesis by auto
  qed
qed

lemma demo_buy_reachable: "reachable demo_buy"
proof -
  from demo_first_roll obtain s r where
    "step 3 demo_shuffle 1 2 RollAndMove demo_start = Some (Inr (s, r))" by auto
  moreover from this have "reachable s"
    by (rule reachable.next_step [OF demo_start_reachable demo_shuffle_fair, rotated 2])
       (simp_all add: die_def)
  ultimately show ?thesis by (simp add: demo_buy_def)
qed

lemma demo_buy_phase: "phase demo_buy = WAITING_FOR_BUY_DECISION"
  using demo_first_roll by (auto simp: demo_buy_def)


lemma demo_player_fields [simp]:
  "name (demo_player n m pos props b) = n"
  "money (demo_player n m pos props b) = m"
  "position (demo_player n m pos props b) = pos"
  "properties (demo_player n m pos props b) = props"
  "bankrupt (demo_player n m pos props b) = b"
  "in_jail (demo_player n m pos props b) = False"
  "jail_cards (demo_player n m pos props b) = 0"
  "doubles_count (demo_player n m pos props b) = 0"
  by (simp_all add: demo_player_def new_Player_def)




subsection \<open>The unmortgage cost on the board\<close>

lemma int_times_1_1_catalog: "\<forall>v \<in> set [0..200]. int_times_1_1 v = v + v div 10"
  by code_simp

lemma wf_mortgage_value:
  assumes wf: "wf_game s" and r: "0 \<le> pos" "pos < 40" and t: "tiles s pos = Some t"
  shows "int_times_1_1 (mortgage_value t) = mortgage_value t + mortgage_value t div 10"
proof -
  from wf_tile_at [OF wf r] t obtain d where d: "(pos, d) \<in> set TILE_DATA" "static_ok pos d t"
    by auto
  from catalog_all [OF catalog_mortgage d(1)]
  have "case td_mortgage d of None \<Rightarrow> True | Some m \<Rightarrow> 0 \<le> m \<and> m \<le> 200" by simp
  with static_fields(5) [OF d(2)] have "0 \<le> mortgage_value t \<and> mortgage_value t \<le> 200"
    by (auto split: option.splits)
  with int_times_1_1_catalog show ?thesis by simp
qed

lemma current_player_update:
  assumes c: "current_player s = Inr (pk, p)"
    and po: "player_order s' = player_order s" "current_player_idx s' = current_player_idx s"
    and pl: "players s' pk = Some p'"
  shows "current_player s' = Inr (pk, p')"
  using assms by (auto simp: current_player_def split: if_splits option.splits)

subsection \<open>The brown streets of the example\<close>

lemma catalog_brown:
  "map_of TILE_DATA 1 = Some (street_entry ''Mediterranean Avenue'' 60 30 ''brown'' 50 [2, 10, 30, 90, 160, 250])"
  "map_of TILE_DATA 3 = Some (street_entry ''Baltic Avenue'' 60 30 ''brown'' 50 [4, 20, 60, 180, 320, 450])"
  by code_simp+

lemma demo_own_wf:
  assumes "wf_game s" "n \<in> set (player_order s)" "0 \<le> pos" "pos < 40"
  shows "wf_game (demo_own pos n s)"
proof -
  from wf_tile_at [OF assms(1,3,4)] obtain t where t: "tiles s pos = Some t" "0 \<le> houses t"
    by blast
  have "wf_game (s\<lparr>tiles := (tiles s)(pos \<mapsto> t\<lparr>owner := Some n\<rparr>)\<rparr>)"
    by (rule wf_set_tile [OF assms(1) t(1)]) (use assms(2) t(2) in simp_all)
  with t show ?thesis by (simp add: demo_own_def)
qed

lemma demo_own_proj [simp]:
  "players (demo_own pos n s) = players s"
  "player_order (demo_own pos n s) = player_order s"
  "current_player_idx (demo_own pos n s) = current_player_idx s"
  "phase (demo_own pos n s) = phase s"
  "chance_deck (demo_own pos n s) = chance_deck s"
  "community_deck (demo_own pos n s) = community_deck s"
  by (simp_all add: demo_own_def split: option.splits)

lemma demo_own_tiles:
  "tiles (demo_own pos n s) q =
     (if q = pos then map_option (\<lambda>t. t\<lparr>owner := Some n\<rparr>) (tiles s pos) else tiles s q)"
  by (simp add: demo_own_def split: option.splits)

lemma demo_monopoly_wf: "wf_game (demo_monopoly ph)"
proof -
  have "wf_game (set_player ''A'' (demo_player ''A'' 1500 0 [1, 3] False) demo_start)"
    by (rule wf_set_player [OF demo_start_wf]) (simp_all add: demo_start_fields)
  then show ?thesis
    unfolding demo_monopoly_def by (simp add: demo_own_wf demo_start_fields)
qed

lemma demo_monopoly_fields:
  "phase (demo_monopoly ph) = ph"
  "player_order (demo_monopoly ph) = [''A'', ''B'', ''C'']"
  "current_player_idx (demo_monopoly ph) = 0"
  "players (demo_monopoly ph) ''A'' = Some (demo_player ''A'' 1500 0 [1, 3] False)"
  "tiles (demo_monopoly ph) 1 = Some ((property_of_data 1
      (street_entry ''Mediterranean Avenue'' 60 30 ''brown'' 50 [2, 10, 30, 90, 160, 250]))\<lparr>owner := Some ''A''\<rparr>)"
  "tiles (demo_monopoly ph) 3 = Some ((property_of_data 3
      (street_entry ''Baltic Avenue'' 60 30 ''brown'' 50 [4, 20, 60, 180, 320, 450]))\<lparr>owner := Some ''A''\<rparr>)"
  by (simp_all add: demo_monopoly_def demo_start_fields set_player_def demo_own_tiles
      demo_start_tile [OF catalog_brown(1)] demo_start_tile [OF catalog_brown(2)])

lemma demo_monopoly_current:
  "current_player (demo_monopoly ph) = Inr (''A'', demo_player ''A'' 1500 0 [1, 3] False)"
  by (simp add: current_player_def demo_monopoly_fields)

lemma brown_street_fields [simp]:
  "tile_type (property_of_data q (street_entry n pr m c h r)) = PROPERTY"
  "mortgage_value (property_of_data q (street_entry n pr m c h r)) = m"
  "house_cost (property_of_data q (street_entry n pr m c h r)) = h"
  "color_group (property_of_data q (street_entry n pr m c h r)) = c"
  "rent (property_of_data q (street_entry n pr m c h r)) = r"
  "price (property_of_data q (street_entry n pr m c h r)) = pr"
  "houses (property_of_data q d) = 0"
  "is_mortgaged (property_of_data q d) = False"
  "owner (property_of_data q d) = None"
  by (simp_all add: property_of_data_def street_entry_def)

subsection \<open>Cash and holdings across rent and turn end\<close>

lemma move_to_next_player_frame:
  assumes "move_to_next_player s1 = Some (Inr (s', r))"
  shows "tiles s' = tiles s1" "players s' = players s1"
  using assms
  by (auto simp: move_to_next_player_def Let_def split: sum.splits option.splits if_splits prod.splits)

lemma end_turn_keeps_holdings:
  assumes e: "end_turn s = Some (Inr (s', r))"
  shows "tiles s' = tiles s"
    "players s n = Some q \<Longrightarrow> \<exists>q'. players s' n = Some q' \<and> properties q' = properties q
        \<and> money q' = money q"
proof -
  have "tiles s' = tiles s \<and> (players s n = Some q \<longrightarrow> (\<exists>q'. players s' n = Some q'
          \<and> properties q' = properties q \<and> money q' = money q))"
  proof (cases "phase s = TURN_COMPLETE")
    case False
    with e have "s' = s" by (simp add: end_turn_def)
    then show ?thesis by simp
  next
    case True
    show ?thesis
    proof (cases "current_player s")
      case (Inl x)
      with e True show ?thesis by (simp add: end_turn_def)
    next
      case (Inr a)
      then obtain pk p where c: "current_player s = Inr (pk, p)" by (cases a) auto
      then have pp: "players s pk = Some p"
        by (auto simp: current_player_def split: if_splits option.splits)
      from end_turn_marked [OF True c] obtain s1 where
        m: "end_turn s = move_to_next_player s1"
        and pl: "players s1 = (players s)(pk \<mapsto> p\<lparr>doubles_count := 0, bankrupt := (bankrupt p \<or> money p < 0)\<rparr>)"
        and sb: "same_board s s1" by blast
      from e m have "move_to_next_player s1 = Some (Inr (s', r))" by simp
      from move_to_next_player_frame [OF this] have "tiles s' = tiles s1" "players s' = players s1" .
      with pl sb pp show ?thesis by (auto simp: same_board_def)
    qed
  qed
  then show "tiles s' = tiles s"
    "players s n = Some q \<Longrightarrow> \<exists>q'. players s' n = Some q' \<and> properties q' = properties q
        \<and> money q' = money q" by simp_all
qed

lemma landing_pays_rent:
  assumes wf: "wf_game s" and pk: "pk \<in> set (player_order s)" and p: "players s pk = Some p"
    and t: "tiles s (position p) = Some tile"
    and ty: "tile_type tile = PROPERTY \<or> tile_type tile = RAILROAD \<or> tile_type tile = UTILITY"
    and ow: "owner tile = Some ow" "ow \<noteq> pk" and op: "players s ow = Some op"
  shows "\<exists>rnt s' r. calculate_rent s tile dt = Inr rnt
           \<and> handle_landing (Suc n) sh s pk tile dt = Some (Inr (s', r))
           \<and> players s' = (players s)(pk \<mapsto> p\<lparr>money := money p - rnt\<rparr>,
                                        ow \<mapsto> op\<lparr>money := money op + rnt\<rparr>)
           \<and> tiles s' = tiles s"
proof -
  from wf_playerD [OF wf pk] p have np: "name p = pk" "0 \<le> position p" "position p < 40" by auto
  from wf_tile_at [OF wf np(2,3)] t ow(1) obtain d where
    d: "(position p, d) \<in> set TILE_DATA" "static_ok (position p) d tile" "0 \<le> houses tile"
      "ow \<in> set (player_order s)" by auto
  from calculate_rent_ok [OF wf d(2) d(1) d(3) ow(1) d(4)] obtain rnt where
    rnt: "calculate_rent s tile dt = Inr rnt" by blast
  have "handle_landing (Suc n) sh s pk tile dt =
      Some (Inr ((log_msg (name p @ '' paid $'' @ str_int rnt @ '' rent to '' @ ow)
                   (set_player ow (op\<lparr>money := money op + rnt\<rparr>)
                      (set_player pk (p\<lparr>money := money p - rnt\<rparr>) s)))\<lparr>phase := TURN_COMPLETE\<rparr>,
                 [(''result'', PStr (''Paid $'' @ str_int rnt @ '' rent to '' @ ow))]))"
    using p ty ow op rnt np(1) by (auto simp: Let_def set_player_def)
  with rnt show ?thesis by (simp add: set_player_def)
qed

lemma demo_rent_wf: "wf_game demo_rent"
proof -
  have a: "wf_game (set_player ''A'' (demo_player ''A'' 1500 3 [] False) demo_start)"
    by (rule wf_set_player [OF demo_start_wf]) (simp_all add: demo_start_fields)
  have "wf_game (set_player ''B'' (demo_player ''B'' 0 0 [3] True)
          (set_player ''A'' (demo_player ''A'' 1500 3 [] False) demo_start))"
    by (rule wf_set_player [OF a]) (simp_all add: demo_start_fields)
  then show ?thesis
    unfolding demo_rent_def by (rule demo_own_wf) (simp_all add: demo_start_fields)
qed

lemma demo_rent_fields:
  "player_order demo_rent = [''A'', ''B'', ''C'']"
  "players demo_rent ''A'' = Some (demo_player ''A'' 1500 3 [] False)"
  "players demo_rent ''B'' = Some (demo_player ''B'' 0 0 [3] True)"
  "tiles demo_rent 3 = Some ((property_of_data 3
      (street_entry ''Baltic Avenue'' 60 30 ''brown'' 50 [4, 20, 60, 180, 320, 450]))\<lparr>owner := Some ''B''\<rparr>)"
  by (simp_all add: demo_rent_def demo_start_fields set_player_def demo_own_tiles
      demo_start_tile [OF catalog_brown(2)])

subsection \<open>The two outcomes of building\<close>

lemma succeeded_simps [simp]:
  "succeeded (Inl e) = False"
  "succeeded (Inr (s, r)) = (\<not> has_error r)"
  by (simp_all add: succeeded_def)




subsection \<open>Rolls that end on a plain tile\<close>

lemma roll_onto_plain_tile:
  assumes ph: "phase s = WAITING_FOR_ROLL" and c: "current_player s = Inr (pk, p)"
    and nt: "\<not> (d1 = d2 \<and> 2 \<le> doubles_count p)"
    and t: "tiles s ((position p + (d1 + d2)) mod 40) = Some tile"
    and ty: "tile_type tile = GO \<or> tile_type tile = JAIL \<or> tile_type tile = FREE_PARKING"
  shows "\<exists>s' r. roll_and_move (Suc n) sh d1 d2 s = Some (Inr (s', r))
      \<and> players s' = (players s)(pk \<mapsto> p\<lparr>doubles_count := (if d1 = d2 then doubles_count p + 1 else 0),
            position := (position p + (d1 + d2)) mod 40,
            money := money p + (if (position p + (d1 + d2)) mod 40 < position p
                              \<and> (position p + (d1 + d2)) mod 40 \<noteq> 10 then 200 else 0)\<rparr>)
      \<and> tiles s' = tiles s
      \<and> phase s' = (if d1 = d2 then WAITING_FOR_ROLL else TURN_COMPLETE)"
proof (rule roll_and_move_moved [OF ph c nt t, of "Suc n" sh])
  fix s4
  assume pl: "players s4 = (players s)(pk \<mapsto> p\<lparr>doubles_count := (if d1 = d2 then doubles_count p + 1 else 0),
        position := (position p + (d1 + d2)) mod 40,
        money := money p + (if (position p + (d1 + d2)) mod 40 < position p
                              \<and> (position p + (d1 + d2)) mod 40 \<noteq> 10 then 200 else 0)\<rparr>)"
    and sb: "same_board (s\<lparr>last_dice := (d1, d2)\<rparr>) s4"
    and fin: "\<And>s5 res p5. handle_landing (Suc n) sh s4 pk tile (d1 + d2) = Some (Inr (s5, res)) \<Longrightarrow>
         players s5 pk = Some p5 \<Longrightarrow>
         \<exists>r. roll_and_move (Suc n) sh d1 d2 s =
               Some (Inr (if d1 = d2 \<and> phase s5 = TURN_COMPLETE then s5\<lparr>phase := WAITING_FOR_ROLL\<rparr> else s5, r))
             \<and> has_error r = has_error res
             \<and> map_of r ''roll_again'' = (if d1 = d2 \<and> phase s5 = TURN_COMPLETE then Some (PBool True)
                                            else map_of res ''roll_again'')"
  from pl obtain p4 where p4: "players s4 pk = Some p4" by simp
  have hl: "handle_landing (Suc n) sh s4 pk tile (d1 + d2)
      = Some (Inr (s4\<lparr>phase := TURN_COMPLETE\<rparr>, [(''result'', PStr ''Nothing happens'')]))"
    using p4 ty by auto
  from fin [OF hl, of p4] p4 obtain r where
    "roll_and_move (Suc n) sh d1 d2 s =
       Some (Inr (if d1 = d2 then s4\<lparr>phase := WAITING_FOR_ROLL\<rparr> else s4\<lparr>phase := TURN_COMPLETE\<rparr>, r))"
    by auto
  with pl sb show ?thesis by (auto simp: same_board_def)
qed

lemma demo_at_fields:
  "phase (demo_at pos) = WAITING_FOR_ROLL"
  "players (demo_at pos) ''A'' = Some (demo_player ''A'' 1500 pos [] False)"
  "tiles (demo_at pos) = tiles demo_start"
  by (simp_all add: demo_at_def demo_start_fields set_player_def)

lemma demo_at_current: "current_player (demo_at pos) = Inr (''A'', demo_player ''A'' 1500 pos [] False)"
  by (simp add: current_player_def demo_at_def demo_start_fields set_player_def)

lemma demo_tile_typed:
  assumes "map_option td_type (map_of TILE_DATA k) = Some ty"
  obtains tile where "tiles demo_start k = Some tile" "tile_type tile = ty" "owner tile = None"
proof -
  from catalog_lookup [OF assms] obtain d where d: "map_of TILE_DATA k = Some d" "td_type d = ty" .
  show ?thesis
    by (rule that [OF demo_start_tile [OF d(1)]]) (simp_all add: property_of_data_def d(2))
qed

subsection \<open>Doubles whose landing ends the turn\<close>

lemma double_with_terminal_landing:
  assumes ph: "phase s = WAITING_FOR_ROLL" and c: "current_player s = Inr (pk, p)"
    and dbl: "d1 = d2" and nt: "\<not> (d1 = d2 \<and> 2 \<le> doubles_count p)"
    and t: "tiles s ((position p + (d1 + d2)) mod 40) = Some tile"
    and land: "\<And>s4. players s4 pk \<noteq> None \<Longrightarrow> community_deck s4 = community_deck s
        \<Longrightarrow> chance_deck s4 = chance_deck s
        \<Longrightarrow> \<exists>s5 res p5. handle_landing fuel sh s4 pk tile (d1 + d2) = Some (Inr (s5, res))
              \<and> phase s5 = TURN_COMPLETE \<and> players s5 pk = Some p5 \<and> Q p5"
  shows "\<exists>s' r p'. roll_and_move fuel sh d1 d2 s = Some (Inr (s', r))
           \<and> phase s' = WAITING_FOR_ROLL \<and> map_of r ''roll_again'' = Some (PBool True)
           \<and> players s' pk = Some p' \<and> Q p'"
proof (rule roll_and_move_moved [OF ph c nt t, of fuel sh])
  fix s4
  assume pl: "players s4 = (players s)(pk \<mapsto> p\<lparr>doubles_count := (if d1 = d2 then doubles_count p + 1 else 0),
        position := (position p + (d1 + d2)) mod 40,
        money := money p + (if (position p + (d1 + d2)) mod 40 < position p
                              \<and> (position p + (d1 + d2)) mod 40 \<noteq> 10 then 200 else 0)\<rparr>)"
    and dk: "chance_deck s4 = chance_deck s" "community_deck s4 = community_deck s"
    and fin: "\<And>s5 res p5. handle_landing fuel sh s4 pk tile (d1 + d2) = Some (Inr (s5, res)) \<Longrightarrow>
         players s5 pk = Some p5 \<Longrightarrow>
         \<exists>r. roll_and_move fuel sh d1 d2 s =
               Some (Inr (if d1 = d2 \<and> phase s5 = TURN_COMPLETE then s5\<lparr>phase := WAITING_FOR_ROLL\<rparr> else s5, r))
             \<and> has_error r = has_error res
             \<and> map_of r ''roll_again'' = (if d1 = d2 \<and> phase s5 = TURN_COMPLETE then Some (PBool True)
                                            else map_of res ''roll_again'')"
  from pl have "players s4 pk \<noteq> None" by simp
  from land [OF this dk(2) dk(1)] obtain s5 res p5 where
    l: "handle_landing fuel sh s4 pk tile (d1 + d2) = Some (Inr (s5, res))"
      "phase s5 = TURN_COMPLETE" "players s5 pk = Some p5" "Q p5" by blast
  from fin [OF l(1) l(3)] dbl l(2) obtain r where
    "roll_and_move fuel sh d1 d2 s = Some (Inr (s5\<lparr>phase := WAITING_FOR_ROLL\<rparr>, r))"
    "map_of r ''roll_again'' = Some (PBool True)" by auto
  with l(3,4) show ?thesis
    by (intro exI [of _ "s5\<lparr>phase := WAITING_FOR_ROLL\<rparr>"] exI [of _ r] exI [of _ p5]) simp
qed

lemma double_onto_go_to_jail:
  assumes ph: "phase s = WAITING_FOR_ROLL" and c: "current_player s = Inr (pk, p)"
    and dbl: "d1 = d2" and nt: "\<not> (d1 = d2 \<and> 2 \<le> doubles_count p)"
    and t: "tiles s ((position p + (d1 + d2)) mod 40) = Some tile"
    and ty: "tile_type tile = GO_TO_JAIL"
  shows "\<exists>s' r p'. roll_and_move (Suc n) sh d1 d2 s = Some (Inr (s', r))
           \<and> phase s' = WAITING_FOR_ROLL \<and> map_of r ''roll_again'' = Some (PBool True)
           \<and> players s' pk = Some p' \<and> (in_jail p' \<and> position p' = 10)"
proof (rule double_with_terminal_landing [OF ph c dbl nt t])
  fix s4 :: Game
  assume "players s4 pk \<noteq> None"
  then obtain p4 where p4: "players s4 pk = Some p4" by auto
  let ?s5 = "send_to_jail pk p4 ''landed on Go To Jail'' s4"
  let ?p5 = "p4\<lparr>position := 10, in_jail := True, jail_turns := 0, doubles_count := 0\<rparr>"
  have "handle_landing (Suc n) sh s4 pk tile (d1 + d2) = Some (Inr (?s5, [(''result'', PStr ''Go to Jail!'')]))"
    using p4 ty by simp
  moreover have "phase ?s5 = TURN_COMPLETE" "players ?s5 pk = Some ?p5"
    "in_jail ?p5 \<and> position ?p5 = 10" by simp_all
  ultimately show "\<exists>s5 res p5. handle_landing (Suc n) sh s4 pk tile (d1 + d2) = Some (Inr (s5, res))
              \<and> phase s5 = TURN_COMPLETE \<and> players s5 pk = Some p5 \<and> (in_jail p5 \<and> position p5 = 10)"
    by blast
qed

lemma demo_community_top:
  "rotate 6 COMMUNITY_CARDS = GoToJailCard ''Go to Jail'' # tl (rotate 6 COMMUNITY_CARDS)"
  by code_simp

lemma demo_chance_top:
  "rotate 6 CHANCE_CARDS = JailCard ''Get Out of Jail Free'' # tl (rotate 6 CHANCE_CARDS)"
  by code_simp

lemma draw_go_to_jail_card:
  assumes p4: "players s4 pk = Some p4" and ty: "ct = COMMUNITY_CHEST"
    and deck: "community_deck s4 = GoToJailCard txt # rest"
  shows "\<exists>s5 res p5. draw_card_body l sh s4 pk ct = Some (Inr (s5, res))
           \<and> phase s5 = TURN_COMPLETE \<and> players s5 pk = Some p5 \<and> (in_jail p5 \<and> position p5 = 10)"
  using assms by (simp add: draw_card_body_def card_effect_def Let_def)

lemma demo_first_double:
  "\<exists>s' r p'. roll_and_move 2 demo_shuffle 1 1 demo_start = Some (Inr (s', r))
           \<and> phase s' = WAITING_FOR_ROLL \<and> map_of r ''roll_again'' = Some (PBool True)
           \<and> players s' ''A'' = Some p' \<and> (in_jail p' \<and> position p' = 10)"
proof -
  obtain tile where tile: "tiles demo_start 2 = Some tile" "tile_type tile = COMMUNITY_CHEST"
    by (rule demo_tile_typed [OF catalog_demo_types(2)])
  have t: "tiles demo_start ((position (new_Player ''A'') + (1 + 1)) mod 40) = Some tile"
    using tile(1) by (simp add: new_Player_def)
  have nt: "\<not> ((1::int) = 1 \<and> 2 \<le> doubles_count (new_Player ''A''))" by (simp add: new_Player_def)
  show ?thesis
  proof (rule double_with_terminal_landing [OF demo_start_fields(3) demo_start_current refl nt t])
    fix s4 :: Game
    assume a: "players s4 ''A'' \<noteq> None" and d: "community_deck s4 = community_deck demo_start"
    from a obtain p4 where p4: "players s4 ''A'' = Some p4" by auto
    from d have deck: "community_deck s4 = GoToJailCard ''Go to Jail'' # tl (rotate 6 COMMUNITY_CARDS)"
      using demo_community_top by (simp add: demo_start_fields)
    have "handle_landing 2 demo_shuffle s4 ''A'' tile (1 + 1)
        = draw_card_body (handle_landing 1) demo_shuffle s4 ''A'' COMMUNITY_CHEST"
      using handle_landing_Suc [of 1 demo_shuffle s4 "''A''" tile "1 + 1"] p4 tile(2)
      by (simp add: numeral_2_eq_2 del: handle_landing.simps)
    with draw_go_to_jail_card [OF p4 refl deck, of "handle_landing 1" demo_shuffle]
    show "\<exists>s5 res p5. handle_landing 2 demo_shuffle s4 ''A'' tile (1 + 1) = Some (Inr (s5, res))
              \<and> phase s5 = TURN_COMPLETE \<and> players s5 ''A'' = Some p5 \<and> (in_jail p5 \<and> position p5 = 10)"
      by simp
  qed
qed

lemma demo_double_from_24:
  "\<exists>s' r p'. roll_and_move 1 demo_shuffle 3 3 (demo_at 24) = Some (Inr (s', r))
           \<and> phase s' = WAITING_FOR_ROLL \<and> map_of r ''roll_again'' = Some (PBool True)
           \<and> players s' ''A'' = Some p' \<and> (in_jail p' \<and> position p' = 10)"
proof -
  obtain tile where tile: "tiles demo_start 30 = Some tile" "tile_type tile = GO_TO_JAIL"
    by (rule demo_tile_typed [OF catalog_type_at(9)])
  have t: "tiles (demo_at 24) ((position (demo_player ''A'' 1500 24 [] False) + (3 + 3)) mod 40) = Some tile"
    using tile(1) by (simp add: demo_at_fields)
  have nt: "\<not> ((3::int) = 3 \<and> 2 \<le> doubles_count (demo_player ''A'' 1500 24 [] False))" by simp
  from double_onto_go_to_jail [OF demo_at_fields(1) demo_at_current refl nt t tile(2), of 0 demo_shuffle]
  show ?thesis unfolding One_nat_def .
qed

subsection \<open>A draw from an empty deck\<close>

lemma draw_from_exhausted_chance:
  assumes "players s pk = Some p" "chance_deck s = []" "sh 0 CHANCE_CARDS = JailCard txt # rest"
  shows "\<exists>s'. draw_card n sh s pk CHANCE
            = Some (Inr (s', [(''result'', PStr ''Received Get Out of Jail Free card'')]))
          \<and> chance_deck s' = []
          \<and> players s' = (players s)(pk \<mapsto> p\<lparr>jail_cards := jail_cards p + 1\<rparr>)"
  using assms by (simp add: draw_card_def draw_card_body_def card_effect_def Let_def set_player_def)

lemma chance_jail_cards:
  "length (filter (\<lambda>c. c = JailCard ''Get Out of Jail Free'') CHANCE_CARDS) = 1"
  by code_simp

subsection \<open>Errors come before any change\<close>

lemma draw_card_body_no_error:
  assumes l: "\<And>sh s t d s' r. l sh s pk t d = Some (Inr (s', r)) \<Longrightarrow> \<not> has_error r"
    and e: "draw_card_body l sh s pk ct = Some (Inr (s', r))"
  shows "\<not> has_error r"
proof -
  from draw_card_body_shape [of sh s pk ct]
  consider x where "\<forall>l. draw_card_body l sh s pk ct = x"
    | sh1 s2 t d where "\<forall>l. draw_card_body l sh s pk ct = l sh1 s2 pk t d" by blast
  then show ?thesis
  proof cases
    case 1
    then have "draw_card_body (\<lambda>sh s pk t d. None) sh s pk ct = Some (Inr (s', r))"
      using e by simp
    moreover have "\<not> has_error r"
      if "draw_card_body (\<lambda>sh s pk t d. None) sh s pk ct = Some (Inr (s', r))"
      using that
      by (auto simp: draw_card_body_def card_effect_def Let_def
          split: option.splits list.splits card.splits if_splits)
    ultimately show ?thesis by simp
  next
    case 2
    with e have "l sh1 s2 pk t d = Some (Inr (s', r))" by simp
    then show ?thesis by (rule l)
  qed
qed

lemma handle_landing_no_error:
  "handle_landing n sh s pk tile d = Some (Inr (s', r)) \<Longrightarrow> \<not> has_error r"
proof (induction n arbitrary: sh s tile d s' r)
  case 0
  then show ?case by simp
next
  case (Suc n)
  show ?case
  proof (cases "players s pk \<noteq> None \<and> (tile_type tile = CHANCE \<or> tile_type tile = COMMUNITY_CHEST)")
    case True
    from Suc.prems have "draw_card_body (handle_landing n) sh s pk (tile_type tile) = Some (Inr (s', r))"
      unfolding handle_landing_Suc [of n] if_P [OF True] .
    then show ?thesis by (rule draw_card_body_no_error [rotated]) (rule Suc.IH)
  next
    case False
    from Suc.prems have "handle_landing (Suc 0) sh s pk tile d = Some (Inr (s', r))"
      unfolding handle_landing_Suc [of n] if_not_P [OF False] .
    with False show ?thesis
      by (auto simp: Let_def split: option.splits sum.splits if_splits)
  qed
qed

lemma roll_finish_no_error:
  assumes "(case h of
                 None \<Rightarrow> None
               | Some (Inl e) \<Rightarrow> Some (Inl e)
               | Some (Inr (s5, res)) \<Rightarrow>
                   (case players s5 pk of
                      None \<Rightarrow> Some (Inl KeyError)
                    | Some p5 \<Rightarrow>
                        let res1 = AList.update ''money'' (PInt (money p5))
                          (AList.update ''tile'' (PStr tn)
                          (AList.update ''new_position'' (PInt (position p5))
                          (AList.update ''doubles'' (PBool dbl)
                          (AList.update ''dice'' (PList [PInt d1, PInt d2]) res))))
                        in if dbl \<and> phase s5 = TURN_COMPLETE then
                             Some (Inr (s5\<lparr>phase := WAITING_FOR_ROLL\<rparr>, AList.update ''roll_again'' (PBool True) res1))
                           else Some (Inr (s5, res1)))) = Some (Inr (s', r))"
    and "\<And>s5 res. h = Some (Inr (s5, res)) \<Longrightarrow> \<not> has_error res"
  shows "\<not> has_error r"
  using assms by (auto simp: Let_def split: option.splits sum.splits prod.splits if_splits)

lemma roll_and_move_atomic:
  assumes e: "roll_and_move fuel sh d1 d2 s = Some (Inr (s', r))" and err: "has_error r"
  shows "s' = s"
proof (cases "phase s = WAITING_FOR_ROLL")
  case False
  with e show ?thesis by (cases "phase s = IN_JAIL") (simp_all add: roll_and_move_def)
next
  case ph: True
  show ?thesis
  proof (cases "current_player s")
    case (Inl x)
    with e ph show ?thesis by (simp add: roll_and_move_def)
  next
    case (Inr a)
    then obtain pk p where c: "current_player s = Inr (pk, p)" by (cases a) auto
    show ?thesis
    proof (cases "d1 = d2 \<and> 2 \<le> doubles_count p")
      case True
      with e ph c err show ?thesis by (auto simp: roll_and_move_def Let_def)
    next
      case nt: False
      show ?thesis
      proof (cases "tiles s ((position p + (d1 + d2)) mod 40)")
        case None
        have "roll_and_move fuel sh d1 d2 s = Some (Inl KeyError)"
        proof (cases "d1 = d2")
          case True
          with nt have "\<not> 2 \<le> doubles_count p" by simp
          then show ?thesis using ph c None True
            by (simp add: roll_and_move_def Let_def cong: option.case_cong sum.case_cong)
        next
          case False
          then show ?thesis using ph c None
            by (simp add: roll_and_move_def Let_def cong: option.case_cong sum.case_cong)
        qed
        with e show ?thesis by simp
      next
        case (Some tile)
        from e [unfolded roll_and_move_unfold [OF ph c nt Some]]
        have "\<not> has_error r"
          by (rule roll_finish_no_error) (rule handle_landing_no_error)
        with err show ?thesis by simp
      qed
    qed
  qed
qed

lemma buy_current_property_atomic:
  "buy_current_property s = Inr (s', r) \<Longrightarrow> has_error r \<Longrightarrow> s' = s"
  by (auto simp: buy_current_property_def Let_def split: sum.splits option.splits if_splits prod.splits)

lemma decline_purchase_atomic:
  "decline_purchase s = Inr (s', r) \<Longrightarrow> has_error r \<Longrightarrow> s' = s"
  by (auto simp: decline_purchase_def Let_def split: sum.splits option.splits if_splits prod.splits)

lemma pay_bail_atomic:
  "pay_bail s = Inr (s', r) \<Longrightarrow> has_error r \<Longrightarrow> s' = s"
  by (auto simp: pay_bail_def Let_def split: sum.splits option.splits if_splits prod.splits)

lemma use_jail_card_atomic:
  "use_jail_card s = Inr (s', r) \<Longrightarrow> has_error r \<Longrightarrow> s' = s"
  by (auto simp: use_jail_card_def Let_def split: sum.splits option.splits if_splits prod.splits)

lemma roll_for_doubles_atomic:
  "roll_for_doubles d1 d2 s = Inr (s', r) \<Longrightarrow> has_error r \<Longrightarrow> s' = s"
  by (auto simp: roll_for_doubles_def Let_def split: sum.splits option.splits if_splits prod.splits)

lemma build_house_atomic:
  "build_house pos s = Inr (s', r) \<Longrightarrow> has_error r \<Longrightarrow> s' = s"
  by (auto simp: build_house_def Let_def split: sum.splits option.splits if_splits prod.splits)

lemma mortgage_property_atomic:
  "mortgage_property pos s = Inr (s', r) \<Longrightarrow> has_error r \<Longrightarrow> s' = s"
  by (auto simp: mortgage_property_def Let_def split: sum.splits option.splits if_splits prod.splits)

lemma unmortgage_property_atomic:
  "unmortgage_property pos s = Inr (s', r) \<Longrightarrow> has_error r \<Longrightarrow> s' = s"
  by (auto simp: unmortgage_property_def Let_def split: sum.splits option.splits if_splits prod.splits)

lemma move_to_next_player_no_error:
  "move_to_next_player s = Some (Inr (s', r)) \<Longrightarrow> \<not> has_error r"
  by (auto simp: move_to_next_player_def Let_def split: sum.splits option.splits if_splits prod.splits)

lemma end_turn_atomic:
  "end_turn s = Some (Inr (s', r)) \<Longrightarrow> has_error r \<Longrightarrow> s' = s"
  by (auto simp: end_turn_def Let_def dest: move_to_next_player_no_error
      split: sum.splits option.splits if_splits prod.splits)

lemma get_property_info_atomic:
  "get_property_info pos s = Inr (s', r) \<Longrightarrow> s' = s"
  by (auto simp: get_property_info_def split: option.splits)

lemma step_atomic:
  assumes "step fuel sh d1 d2 a s = Some (Inr (s', r))" "has_error r"
  shows "s' = s"
proof (cases a)
  case RollAndMove
  with assms show ?thesis by (simp add: roll_and_move_atomic)
next
  case BuyCurrentProperty
  with assms show ?thesis by (simp add: buy_current_property_atomic)
next
  case DeclinePurchase
  with assms show ?thesis by (simp add: decline_purchase_atomic)
next
  case PayBail
  with assms show ?thesis by (simp add: pay_bail_atomic)
next
  case UseJailCard
  with assms show ?thesis by (simp add: use_jail_card_atomic)
next
  case RollForDoubles
  with assms show ?thesis by (simp add: roll_for_doubles_atomic)
next
  case (BuildHouse pos)
  with assms show ?thesis by (simp add: build_house_atomic)
next
  case (MortgageProperty pos)
  with assms show ?thesis by (simp add: mortgage_property_atomic)
next
  case (UnmortgageProperty pos)
  with assms show ?thesis by (simp add: unmortgage_property_atomic)
next
  case EndTurn
  with assms show ?thesis by (simp add: end_turn_atomic)
next
  case (GetPropertyInfo pos)
  with assms show ?thesis by (simp add: get_property_info_atomic)
qed

subsection \<open>Where a roll puts the player\<close>

text \<open>
  What \<open>roll_and_move\<close> does with position and cash before the tile is resolved, and the
  whole call on the tiles where nothing happens.
\<close>

lemma roll_and_move_placement:
  assumes ph: "phase s = WAITING_FOR_ROLL" and c: "current_player s = Inr (pk, p)"
    and nt: "\<not> (d1 = d2 \<and> 2 \<le> doubles_count p)"
    and t: "tiles s ((position p + (d1 + d2)) mod 40) = Some tile"
  shows "(\<exists>s4 p4. players s4 pk = Some p4
            \<and> position p4 = (position p + (d1 + d2)) mod 40
            \<and> money p4 = money p + (if position p4 < position p \<and> position p4 \<noteq> 10 then 200 else 0)
            \<and> (\<forall>n. n \<noteq> pk \<longrightarrow> players s4 n = players s n) \<and> tiles s4 = tiles s
            \<and> (handle_landing fuel sh s4 pk tile (d1 + d2) = None
                  \<longrightarrow> roll_and_move fuel sh d1 d2 s = None)
            \<and> (\<forall>e. handle_landing fuel sh s4 pk tile (d1 + d2) = Some (Inl e)
                  \<longrightarrow> roll_and_move fuel sh d1 d2 s = Some (Inl e))
            \<and> (\<forall>s5 res p5. handle_landing fuel sh s4 pk tile (d1 + d2) = Some (Inr (s5, res))
                    \<and> players s5 pk = Some p5
                  \<longrightarrow> (\<exists>r. roll_and_move fuel sh d1 d2 s =
                         Some (Inr (if d1 = d2 \<and> phase s5 = TURN_COMPLETE
                                    then s5\<lparr>phase := WAITING_FOR_ROLL\<rparr> else s5, r)))))
       \<and> (0 < fuel \<and> (tile_type tile = GO \<or> tile_type tile = JAIL \<or> tile_type tile = FREE_PARKING)
            \<longrightarrow> (\<exists>s' r p'. roll_and_move fuel sh d1 d2 s = Some (Inr (s', r))
                   \<and> players s' pk = Some p'
                   \<and> position p' = (position p + (d1 + d2)) mod 40
                   \<and> money p' = money p + (if position p' < position p \<and> position p' \<noteq> 10
                                            then 200 else 0)))"
proof (rule conjI)
  show "\<exists>s4 p4. players s4 pk = Some p4
            \<and> position p4 = (position p + (d1 + d2)) mod 40
            \<and> money p4 = money p + (if position p4 < position p \<and> position p4 \<noteq> 10 then 200 else 0)
            \<and> (\<forall>n. n \<noteq> pk \<longrightarrow> players s4 n = players s n) \<and> tiles s4 = tiles s
            \<and> (handle_landing fuel sh s4 pk tile (d1 + d2) = None
                  \<longrightarrow> roll_and_move fuel sh d1 d2 s = None)
            \<and> (\<forall>e. handle_landing fuel sh s4 pk tile (d1 + d2) = Some (Inl e)
                  \<longrightarrow> roll_and_move fuel sh d1 d2 s = Some (Inl e))
            \<and> (\<forall>s5 res p5. handle_landing fuel sh s4 pk tile (d1 + d2) = Some (Inr (s5, res))
                    \<and> players s5 pk = Some p5
                  \<longrightarrow> (\<exists>r. roll_and_move fuel sh d1 d2 s =
                         Some (Inr (if d1 = d2 \<and> phase s5 = TURN_COMPLETE
                                    then s5\<lparr>phase := WAITING_FOR_ROLL\<rparr> else s5, r))))"
  proof (rule roll_and_move_moved [OF ph c nt t, of fuel sh])
    fix s4
    assume pl: "players s4 = (players s)(pk \<mapsto> p\<lparr>doubles_count := (if d1 = d2 then doubles_count p + 1 else 0),
        position := (position p + (d1 + d2)) mod 40,
        money := money p + (if (position p + (d1 + d2)) mod 40 < position p
                              \<and> (position p + (d1 + d2)) mod 40 \<noteq> 10 then 200 else 0)\<rparr>)"
      and sb: "same_board (s\<lparr>last_dice := (d1, d2)\<rparr>) s4"
      and n: "handle_landing fuel sh s4 pk tile (d1 + d2) = None \<Longrightarrow> roll_and_move fuel sh d1 d2 s = None"
      and l: "\<And>e. handle_landing fuel sh s4 pk tile (d1 + d2) = Some (Inl e) \<Longrightarrow> roll_and_move fuel sh d1 d2 s = Some (Inl e)"
      and fin: "\<And>s5 res p5. handle_landing fuel sh s4 pk tile (d1 + d2) = Some (Inr (s5, res)) \<Longrightarrow>
         players s5 pk = Some p5 \<Longrightarrow>
         \<exists>r. roll_and_move fuel sh d1 d2 s =
               Some (Inr (if d1 = d2 \<and> phase s5 = TURN_COMPLETE then s5\<lparr>phase := WAITING_FOR_ROLL\<rparr> else s5, r))
             \<and> has_error r = has_error res
             \<and> map_of r ''roll_again'' = (if d1 = d2 \<and> phase s5 = TURN_COMPLETE then Some (PBool True)
                                            else map_of res ''roll_again'')"
    let ?p4 = "p\<lparr>doubles_count := (if d1 = d2 then doubles_count p + 1 else 0),
        position := (position p + (d1 + d2)) mod 40,
        money := money p + (if (position p + (d1 + d2)) mod 40 < position p
                              \<and> (position p + (d1 + d2)) mod 40 \<noteq> 10 then 200 else 0)\<rparr>"
    have a: "players s4 pk = Some ?p4" "\<forall>n. n \<noteq> pk \<longrightarrow> players s4 n = players s n"
      "tiles s4 = tiles s"
      using pl sb by (simp_all add: same_board_def)
    have b: "\<forall>s5 res p5. handle_landing fuel sh s4 pk tile (d1 + d2) = Some (Inr (s5, res))
                    \<and> players s5 pk = Some p5
                  \<longrightarrow> (\<exists>r. roll_and_move fuel sh d1 d2 s =
                         Some (Inr (if d1 = d2 \<and> phase s5 = TURN_COMPLETE
                                    then s5\<lparr>phase := WAITING_FOR_ROLL\<rparr> else s5, r)))"
      using fin by blast
    show ?thesis
      by (intro exI [of _ s4] exI [of _ ?p4] conjI a b) (use n l in simp_all)
  qed
next
  show "0 < fuel \<and> (tile_type tile = GO \<or> tile_type tile = JAIL \<or> tile_type tile = FREE_PARKING)
            \<longrightarrow> (\<exists>s' r p'. roll_and_move fuel sh d1 d2 s = Some (Inr (s', r))
                   \<and> players s' pk = Some p'
                   \<and> position p' = (position p + (d1 + d2)) mod 40
                   \<and> money p' = money p + (if position p' < position p \<and> position p' \<noteq> 10
                                            then 200 else 0))"
  proof
    assume a: "0 < fuel \<and> (tile_type tile = GO \<or> tile_type tile = JAIL \<or> tile_type tile = FREE_PARKING)"
    then obtain n where n: "fuel = Suc n" by (cases fuel) auto
    from roll_onto_plain_tile [OF ph c nt t conjunct2 [OF a], of n sh]
    obtain s' r where
      "roll_and_move (Suc n) sh d1 d2 s = Some (Inr (s', r))"
      "players s' = (players s)(pk \<mapsto> p\<lparr>doubles_count := (if d1 = d2 then doubles_count p + 1 else 0),
            position := (position p + (d1 + d2)) mod 40,
            money := money p + (if (position p + (d1 + d2)) mod 40 < position p
                              \<and> (position p + (d1 + d2)) mod 40 \<noteq> 10 then 200 else 0)\<rparr>)"
      by (elim exE conjE)
    then show "\<exists>s' r p'. roll_and_move fuel sh d1 d2 s = Some (Inr (s', r))
                   \<and> players s' pk = Some p'
                   \<and> position p' = (position p + (d1 + d2)) mod 40
                   \<and> money p' = money p + (if position p' < position p \<and> position p' \<noteq> 10
                                            then 200 else 0)"
      unfolding n by (intro exI [of _ s'] exI [of _ r]) simp
  qed
qed

lemma wrap_onto_go_is_paid:
  "\<exists>s' r p'. roll_and_move 1 demo_shuffle 2 3 (demo_at 35) = Some (Inr (s', r))
      \<and> players s' ''A'' = Some p' \<and> position p' = 0 \<and> money p' = 1700"
proof -
  obtain tile where tile: "tiles demo_start 0 = Some tile" "tile_type tile = GO"
    by (rule demo_tile_typed [OF catalog_type_at(1)])
  have t: "tiles (demo_at 35) ((position (demo_player ''A'' 1500 35 [] False) + (2 + 3)) mod 40) = Some tile"
    using tile(1) by (simp add: demo_at_fields)
  have nt: "\<not> ((2::int) = 3 \<and> 2 \<le> doubles_count (demo_player ''A'' 1500 35 [] False))" by simp
  have ty: "tile_type tile = GO \<or> tile_type tile = JAIL \<or> tile_type tile = FREE_PARKING"
    using tile(2) by simp
  from roll_onto_plain_tile [OF demo_at_fields(1) demo_at_current nt t ty, of 0 demo_shuffle]
  obtain s' r where
    e: "roll_and_move (Suc 0) demo_shuffle 2 3 (demo_at 35) = Some (Inr (s', r))"
    and pl: "players s' = (players (demo_at 35))(''A'' \<mapsto> (demo_player ''A'' 1500 35 [] False)
       \<lparr>doubles_count := (if (2::int) = 3 then doubles_count (demo_player ''A'' 1500 35 [] False) + 1 else 0),
            position := (position (demo_player ''A'' 1500 35 [] False) + (2 + 3)) mod 40,
            money := money (demo_player ''A'' 1500 35 [] False)
              + (if (position (demo_player ''A'' 1500 35 [] False) + (2 + 3)) mod 40
                      < position (demo_player ''A'' 1500 35 [] False)
                    \<and> (position (demo_player ''A'' 1500 35 [] False) + (2 + 3)) mod 40 \<noteq> 10
                 then 200 else 0)\<rparr>)"
    by (elim exE conjE)
  from pl have "\<exists>p'. players s' ''A'' = Some p' \<and> position p' = 0 \<and> money p' = 1700" by simp
  with e show ?thesis unfolding One_nat_def by blast
qed

section \<open>Rent of a mortgaged tile\<close>

text \<open>
  Claim C8. For every tile whose mortgaged flag is set, \<open>get_rent\<close> returns 0, whatever the
  tile's type, its house count, the dice total and the numbers of railroads and utilities
  passed in.
\<close>

theorem get_rent_mortgaged_zero:
  "is_mortgaged t \<Longrightarrow> get_rent t dice_roll railroads_owned utilities_owned = Inr 0"
  by (simp add: get_rent_def)

theorem get_rent_mortgaged_zero_witness:
  "is_mortgaged \<lparr>tile_position = 39, tile_name = ''Boardwalk'', tile_type = PROPERTY, price = 400,
      mortgage_value = 200, color_group = ''dark_blue'', house_cost = 200,
      rent = [50, 200, 600, 1400, 1700, 2000], owner = Some ''A'', houses = 5,
      is_mortgaged = True\<rparr>
   \<and> get_rent \<lparr>tile_position = 39, tile_name = ''Boardwalk'', tile_type = PROPERTY, price = 400,
      mortgage_value = 200, color_group = ''dark_blue'', house_cost = 200,
      rent = [50, 200, 600, 1400, 1700, 2000], owner = Some ''A'', houses = 5,
      is_mortgaged = True\<rparr> 12 4 2 = Inr 0"
  using get_rent_mortgaged_zero
    [of "\<lparr>tile_position = 39, tile_name = ''Boardwalk'', tile_type = PROPERTY, price = 400,
      mortgage_value = 200, color_group = ''dark_blue'', house_cost = 200,
      rent = [50, 200, 600, 1400, 1700, 2000], owner = Some ''A'', houses = 5,
      is_mortgaged = True\<rparr>" 12 4 2]
  by simp

section \<open>Failed calls\<close>

text \<open>
  Claim C6. For each of the eleven operations and for every state whatever, a call that returns
  a dictionary with the key \<open>error\<close> returns the state it was given: players, tiles, decks,
  phase, current index, turn counter, dice and event log are the ones before the call. And in
  every state the engine can reach, every call returns a dictionary: no fault is raised, and
  landing resolution does not need more than three levels of calls.
\<close>

theorem failed_call_changes_nothing:
  "(\<forall>s' r. step fuel sh d1 d2 a s = Some (Inr (s', r)) \<and> has_error r \<longrightarrow> s' = s)
   \<and> (reachable s \<and> fair_shuffle sh \<and> 3 \<le> fuel
        \<longrightarrow> (\<exists>s' r. step fuel sh d1 d2 a s = Some (Inr (s', r))))"
proof (intro conjI allI impI)
  fix s' r
  assume "step fuel sh d1 d2 a s = Some (Inr (s', r)) \<and> has_error r"
  then show "s' = s" using step_atomic by blast
next
  assume a: "reachable s \<and> fair_shuffle sh \<and> 3 \<le> fuel"
  with reachable_inv [of s] have "wf_game s" "buy_decision_inv s" "fair_shuffle sh" "3 \<le> fuel"
    by simp_all
  from step_ok [OF this, of d1 d2 a] show "\<exists>s' r. step fuel sh d1 d2 a s = Some (Inr (s', r))"
    by blast
qed

theorem failed_call_changes_nothing_witness:
  "reachable demo_start \<and> fair_shuffle demo_shuffle \<and> (3::nat) \<le> 3
   \<and> (\<exists>s' r. step 3 demo_shuffle 1 2 BuyCurrentProperty demo_start = Some (Inr (s', r))
         \<and> has_error r \<and> s' = demo_start)"
proof -
  note inst = failed_call_changes_nothing [of 3 demo_shuffle 1 2 BuyCurrentProperty demo_start]
  from conjunct2 [OF inst] demo_start_reachable demo_shuffle_fair
  obtain s' r where e: "step 3 demo_shuffle 1 2 BuyCurrentProperty demo_start = Some (Inr (s', r))"
    by auto
  then have "r = error_result ''No property available to buy''"
    by (simp add: buy_current_property_def demo_start_fields)
  then have err: "has_error r" by simp
  with conjunct1 [OF inst] e have "s' = demo_start" by blast
  with e err demo_start_reachable demo_shuffle_fair show ?thesis by auto
qed

section \<open>The buy decision\<close>

text \<open>
  Claim C10. In every state the engine can reach, if the phase is
  \<open>WAITING_FOR_BUY_DECISION\<close> then the current player stands on a tile of type PROPERTY,
  RAILROAD or UTILITY that has no owner. Reachable states are closed under every operation, so
  the property holds before each \<open>buy_current_property\<close> and \<open>decline_purchase\<close>.
\<close>

theorem buy_decision_tile_unowned:
  assumes "reachable s" "phase s = WAITING_FOR_BUY_DECISION"
  shows "\<exists>pk p t. current_player s = Inr (pk, p) \<and> tiles s (position p) = Some t
           \<and> (tile_type t = PROPERTY \<or> tile_type t = RAILROAD \<or> tile_type t = UTILITY)
           \<and> owner t = None"
proof -
  from reachable_inv [OF assms(1)] assms(2) have "on_unowned_ownable s"
    by (simp add: buy_decision_inv_def)
  then show ?thesis
    by (auto simp: on_unowned_ownable_def split: sum.splits option.splits)
qed

theorem buy_decision_tile_unowned_witness:
  "reachable demo_buy \<and> phase demo_buy = WAITING_FOR_BUY_DECISION
   \<and> (\<exists>pk p t. current_player demo_buy = Inr (pk, p) \<and> tiles demo_buy (position p) = Some t
           \<and> (tile_type t = PROPERTY \<or> tile_type t = RAILROAD \<or> tile_type t = UTILITY)
           \<and> owner t = None)"
  using buy_decision_tile_unowned [OF demo_buy_reachable demo_buy_phase]
    demo_buy_reachable demo_buy_phase by simp

section \<open>Ending a turn\<close>



section \<open>Mortgage round trip\<close>

text \<open>
  Claim C7. Let the current player hold a tile that is not mortgaged and carries no houses, and
  let the player's cash cover a tenth of the tile's mortgage value (rounded down). Then
  \<open>mortgage_property\<close> followed at once by \<open>unmortgage_property\<close> on that position both
  succeed; afterwards every tile is as before, the player's cash is lower by exactly the
  mortgage value divided by ten and rounded down, and the engine differs from the one before in
  nothing else but the event log. The cost \<open>int(mortgage_value * 1.1)\<close> is computed in
  binary64 arithmetic; on the mortgage values of the board it is the value plus its tenth.
\<close>

theorem mortgage_round_trip:
  assumes wf: "wf_game s" and c: "current_player s = Inr (pk, p)"
    and own: "pos \<in> set (properties p)" and t: "tiles s pos = Some t"
    and um: "\<not> is_mortgaged t" and h: "houses t = 0"
    and cash: "mortgage_value t div 10 \<le> money p"
  shows "\<exists>s1 r1 s2 r2. mortgage_property pos s = Inr (s1, r1) \<and> \<not> has_error r1
           \<and> unmortgage_property pos s1 = Inr (s2, r2) \<and> \<not> has_error r2
           \<and> tiles s2 = tiles s
           \<and> players s2 = (players s)(pk \<mapsto> p\<lparr>money := money p - mortgage_value t div 10\<rparr>)
           \<and> s2\<lparr>messages := messages s\<rparr> = s\<lparr>players := players s2\<rparr>"
proof -
  from wf_current_player [OF wf] c own have r: "0 \<le> pos" "pos < 40" by auto
  note cost = wf_mortgage_value [OF wf r t]
  let ?p1 = "p\<lparr>money := money p + mortgage_value t\<rparr>"
  let ?t1 = "t\<lparr>is_mortgaged := True\<rparr>"
  let ?s1 = "(set_player pk ?p1 s)\<lparr>tiles := (tiles s)(pos \<mapsto> ?t1)\<rparr>"
  from mortgage_property_effect [OF c own t um] h obtain m1 r1 where
    e1: "mortgage_property pos s = Inr (log_msg m1 ?s1, r1)" "\<not> has_error r1" by auto
  have c1: "current_player (log_msg m1 ?s1) = Inr (pk, ?p1)"
    by (rule current_player_update [OF c]) simp_all
  have t1: "tiles (log_msg m1 ?s1) pos = Some ?t1" by simp
  have ok: "int_times_1_1 (mortgage_value ?t1) \<le> money ?p1" using cost cash by simp
  let ?p2 = "?p1\<lparr>money := money ?p1 - int_times_1_1 (mortgage_value ?t1)\<rparr>"
  let ?s2 = "(set_player pk ?p2 (log_msg m1 ?s1))
               \<lparr>tiles := (tiles (log_msg m1 ?s1))(pos \<mapsto> ?t1\<lparr>is_mortgaged := False\<rparr>)\<rparr>"
  from unmortgage_property_effect [OF c1 _ t1 _ ok] own obtain m2 r2 where
    e2: "unmortgage_property pos (log_msg m1 ?s1) = Inr (log_msg m2 ?s2, r2)" "\<not> has_error r2"
    by auto
  have tt: "?t1\<lparr>is_mortgaged := False\<rparr> = t" using um by (cases t) simp
  have p2: "?p2 = p\<lparr>money := money p - mortgage_value t div 10\<rparr>" using cost by simp
  have ti: "tiles (log_msg m2 ?s2) = tiles s" using t by (simp add: tt fun_upd_idem)
  have pl: "players (log_msg m2 ?s2) = (players s)(pk \<mapsto> p\<lparr>money := money p - mortgage_value t div 10\<rparr>)"
    unfolding p2 [symmetric] by (simp add: set_player_def)
  have eq: "(log_msg m2 ?s2)\<lparr>messages := messages s\<rparr> = s\<lparr>players := players (log_msg m2 ?s2)\<rparr>"
    using t by (cases s) (simp add: log_msg_def set_player_def Let_def tt fun_upd_idem)
  from e1 e2 ti pl eq show ?thesis by blast
qed

theorem mortgage_round_trip_witness:
  "wf_game (demo_monopoly WAITING_FOR_ROLL)
   \<and> current_player (demo_monopoly WAITING_FOR_ROLL) = Inr (''A'', demo_player ''A'' 1500 0 [1, 3] False)
   \<and> (\<exists>t. tiles (demo_monopoly WAITING_FOR_ROLL) 1 = Some t \<and> \<not> is_mortgaged t \<and> houses t = 0
          \<and> mortgage_value t = 30)
   \<and> (\<exists>s1 r1 s2 r2 q. mortgage_property 1 (demo_monopoly WAITING_FOR_ROLL) = Inr (s1, r1)
          \<and> unmortgage_property 1 s1 = Inr (s2, r2)
          \<and> tiles s2 = tiles (demo_monopoly WAITING_FOR_ROLL)
          \<and> players s2 ''A'' = Some q \<and> money q = 1497)"
proof -
  let ?t = "(property_of_data 1
      (street_entry ''Mediterranean Avenue'' 60 30 ''brown'' 50 [2, 10, 30, 90, 160, 250]))\<lparr>owner := Some ''A''\<rparr>"
  have t: "\<not> is_mortgaged ?t" "houses ?t = 0" "mortgage_value ?t = 30" by simp_all
  have cash: "mortgage_value ?t div 10 \<le> money (demo_player ''A'' 1500 0 [1, 3] False)" by simp
  have own: "1 \<in> set (properties (demo_player ''A'' 1500 0 [1, 3] False))" by simp
  from mortgage_round_trip [OF demo_monopoly_wf demo_monopoly_current own demo_monopoly_fields(5) t(1,2) cash]
  obtain s1 r1 s2 r2 where
    "mortgage_property 1 (demo_monopoly WAITING_FOR_ROLL) = Inr (s1, r1)"
    "unmortgage_property 1 s1 = Inr (s2, r2)"
    "tiles s2 = tiles (demo_monopoly WAITING_FOR_ROLL)"
    "players s2 = (players (demo_monopoly WAITING_FOR_ROLL))(''A'' \<mapsto>
        (demo_player ''A'' 1500 0 [1, 3] False)\<lparr>money := money (demo_player ''A'' 1500 0 [1, 3] False)
           - mortgage_value ?t div 10\<rparr>)"
    by blast
  moreover from this(4) have "\<exists>q. players s2 ''A'' = Some q \<and> money q = 1497" by simp
  ultimately show ?thesis
    using demo_monopoly_wf demo_monopoly_current demo_monopoly_fields(5) t by blast
qed

section \<open>Rent and bankrupt owners\<close>

text \<open>
  Claim C9. A player standing on an ownable tile that belongs to another registered player
  pays the computed rent when the landing is resolved: the rent leaves the lander's cash and
  reaches the owner's, whatever the owner's bankrupt flag is (the flag stays as it was), the
  two balances together are unchanged, no other player and no tile changes. And \<open>end_turn\<close>,
  the only operation that sets the bankrupt flag, leaves every tile, every player's holdings and
  every player's cash as they were, so a bankrupt player keeps the tiles and goes on collecting.
\<close>

theorem bankrupt_owner_collects_rent:
  assumes wf: "wf_game s" and pk: "pk \<in> set (player_order s)" and p: "players s pk = Some p"
    and t: "tiles s (position p) = Some tile"
    and ty: "tile_type tile = PROPERTY \<or> tile_type tile = RAILROAD \<or> tile_type tile = UTILITY"
    and ow: "owner tile = Some ow" "ow \<noteq> pk" and op: "players s ow = Some op"
  shows "(\<exists>rnt s' r p' op'. calculate_rent s tile dt = Inr rnt
            \<and> handle_landing (Suc n) sh s pk tile dt = Some (Inr (s', r))
            \<and> players s' pk = Some p' \<and> money p' = money p - rnt
            \<and> players s' ow = Some op' \<and> money op' = money op + rnt \<and> bankrupt op' = bankrupt op
            \<and> money p' + money op' = money p + money op
            \<and> (\<forall>n. n \<noteq> pk \<and> n \<noteq> ow \<longrightarrow> players s' n = players s n)
            \<and> tiles s' = tiles s)
       \<and> (\<forall>s' r n q. end_turn s = Some (Inr (s', r)) \<and> players s n = Some q \<longrightarrow>
             tiles s' = tiles s
             \<and> (\<exists>q'. players s' n = Some q' \<and> properties q' = properties q \<and> money q' = money q))"
proof -
  from landing_pays_rent [OF assms, of dt n sh] obtain rnt s' r where
    l: "calculate_rent s tile dt = Inr rnt"
       "handle_landing (Suc n) sh s pk tile dt = Some (Inr (s', r))"
       "players s' = (players s)(pk \<mapsto> p\<lparr>money := money p - rnt\<rparr>,
                                        ow \<mapsto> op\<lparr>money := money op + rnt\<rparr>)"
       "tiles s' = tiles s" by blast
  from l(3) ow(2) have
    "players s' pk = Some (p\<lparr>money := money p - rnt\<rparr>)"
    "players s' ow = Some (op\<lparr>money := money op + rnt\<rparr>)"
    "\<forall>n. n \<noteq> pk \<and> n \<noteq> ow \<longrightarrow> players s' n = players s n" by auto
  with l have first: "\<exists>rnt s' r p' op'. calculate_rent s tile dt = Inr rnt
            \<and> handle_landing (Suc n) sh s pk tile dt = Some (Inr (s', r))
            \<and> players s' pk = Some p' \<and> money p' = money p - rnt
            \<and> players s' ow = Some op' \<and> money op' = money op + rnt \<and> bankrupt op' = bankrupt op
            \<and> money p' + money op' = money p + money op
            \<and> (\<forall>n. n \<noteq> pk \<and> n \<noteq> ow \<longrightarrow> players s' n = players s n)
            \<and> tiles s' = tiles s"
    by (intro exI [of _ rnt] exI [of _ s'] exI [of _ r] exI [of _ "p\<lparr>money := money p - rnt\<rparr>"]
        exI [of _ "op\<lparr>money := money op + rnt\<rparr>"]) simp
  have second: "\<forall>s' r n q. end_turn s = Some (Inr (s', r)) \<and> players s n = Some q \<longrightarrow>
             tiles s' = tiles s
             \<and> (\<exists>q'. players s' n = Some q' \<and> properties q' = properties q \<and> money q' = money q)"
    using end_turn_keeps_holdings by blast
  from first second show ?thesis by (rule conjI)
qed

theorem bankrupt_owner_collects_rent_witness:
  "wf_game demo_rent \<and> ''A'' \<in> set (player_order demo_rent)
   \<and> players demo_rent ''A'' = Some (demo_player ''A'' 1500 3 [] False)
   \<and> players demo_rent ''B'' = Some (demo_player ''B'' 0 0 [3] True)
   \<and> bankrupt (demo_player ''B'' 0 0 [3] True)
   \<and> (\<exists>tile s' r qa qb. tiles demo_rent 3 = Some tile \<and> tile_type tile = PROPERTY
         \<and> owner tile = Some ''B''
         \<and> handle_landing 1 demo_shuffle demo_rent ''A'' tile 7 = Some (Inr (s', r))
         \<and> players s' ''A'' = Some qa \<and> money qa = 1496
         \<and> players s' ''B'' = Some qb \<and> money qb = 4 \<and> bankrupt qb
         \<and> tiles s' = tiles demo_rent)"
proof -
  let ?tile = "(property_of_data 3
      (street_entry ''Baltic Avenue'' 60 30 ''brown'' 50 [4, 20, 60, 180, 320, 450]))\<lparr>owner := Some ''B''\<rparr>"
  have pk: "''A'' \<in> set (player_order demo_rent)" by (simp add: demo_rent_fields)
  have t: "tiles demo_rent (position (demo_player ''A'' 1500 3 [] False)) = Some ?tile"
    by (simp add: demo_rent_fields)
  have ty: "tile_type ?tile = PROPERTY \<or> tile_type ?tile = RAILROAD \<or> tile_type ?tile = UTILITY"
    by simp
  have ow: "owner ?tile = Some ''B''" "''B'' \<noteq> ''A''" by simp_all
  have rent: "calculate_rent demo_rent ?tile 7 = Inr 4"
    by (simp add: calculate_rent_def get_rent_def py_index_def demo_rent_fields)
  note inst = bankrupt_owner_collects_rent [OF demo_rent_wf pk demo_rent_fields(2) t ty ow demo_rent_fields(3),
      of 7 0 demo_shuffle]
  from conjunct1 [OF inst]
  obtain rnt s' r p' op' where
    "calculate_rent demo_rent ?tile 7 = Inr rnt"
    "handle_landing (Suc 0) demo_shuffle demo_rent ''A'' ?tile 7 = Some (Inr (s', r))"
    "players s' ''A'' = Some p'" "money p' = money (demo_player ''A'' 1500 3 [] False) - rnt"
    "players s' ''B'' = Some op'" "money op' = money (demo_player ''B'' 0 0 [3] True) + rnt"
    "bankrupt op' = bankrupt (demo_player ''B'' 0 0 [3] True)"
    "tiles s' = tiles demo_rent" by (elim exE conjE)
  with rent have "handle_landing 1 demo_shuffle demo_rent ''A'' ?tile 7 = Some (Inr (s', r))
         \<and> players s' ''A'' = Some p' \<and> money p' = 1496
         \<and> players s' ''B'' = Some op' \<and> money op' = 4 \<and> bankrupt op'
         \<and> tiles s' = tiles demo_rent" by (simp del: handle_landing.simps)
  then have "\<exists>tile s' r qa qb. tiles demo_rent 3 = Some tile \<and> tile_type tile = PROPERTY
         \<and> owner tile = Some ''B''
         \<and> handle_landing 1 demo_shuffle demo_rent ''A'' tile 7 = Some (Inr (s', r))
         \<and> players s' ''A'' = Some qa \<and> money qa = 1496
         \<and> players s' ''B'' = Some qb \<and> money qb = 4 \<and> bankrupt qb
         \<and> tiles s' = tiles demo_rent"
    using demo_rent_fields(4) ow(1)
    by (intro exI [of _ ?tile] exI [of _ s'] exI [of _ r] exI [of _ p'] exI [of _ op'])
       (simp del: handle_landing.simps)
  moreover have "bankrupt (demo_player ''B'' 0 0 [3] True)" by simp
  ultimately show ?thesis
    using demo_rent_wf pk demo_rent_fields(2,3) by blast
qed

section \<open>Building a house\<close>




section \<open>Moving and the salary\<close>

text \<open>
  Claim C2. A move that wraps around the board is to be paid 200, whatever the position it
  ends on. It is not when the dice put the player on position 10: A on Boardwalk (position
  39) rolls 5 and 6, the move wraps past GO onto Jail / Just Visiting, and A ends there,
  lower than before, with the 1500 there were. The test before the payment is
  \<open>p.position < old_pos and p.position != 10\<close>; at that point the position comes from the
  dice alone, so its second half withholds the salary on the wraps 38 + 12 and 39 + 11 and
  on nothing else.
\<close>

theorem wrap_onto_position_10_pays_nothing:
  "players (demo_at 39) ''A'' = Some (demo_player ''A'' 1500 39 [] False)
   \<and> (\<exists>s' r p'. roll_and_move 1 demo_shuffle 5 6 (demo_at 39) = Some (Inr (s', r))
          \<and> players s' ''A'' = Some p' \<and> position p' = 10
          \<and> position p' < position (demo_player ''A'' 1500 39 [] False)
          \<and> money p' = money (demo_player ''A'' 1500 39 [] False))"
proof -
  obtain tile where tile: "tiles demo_start 10 = Some tile" "tile_type tile = JAIL"
    by (rule demo_tile_typed [OF catalog_type_at(8)])
  have t: "tiles (demo_at 39) ((position (demo_player ''A'' 1500 39 [] False) + (5 + 6)) mod 40) = Some tile"
    using tile(1) by (simp add: demo_at_fields)
  have nt: "\<not> ((5::int) = 6 \<and> 2 \<le> doubles_count (demo_player ''A'' 1500 39 [] False))" by simp
  have ty: "tile_type tile = GO \<or> tile_type tile = JAIL \<or> tile_type tile = FREE_PARKING"
    using tile(2) by simp
  from roll_onto_plain_tile [OF demo_at_fields(1) demo_at_current nt t ty, of 0 demo_shuffle]
  obtain s' r where
    e: "roll_and_move (Suc 0) demo_shuffle 5 6 (demo_at 39) = Some (Inr (s', r))"
    and pl: "players s' = (players (demo_at 39))(''A'' \<mapsto> (demo_player ''A'' 1500 39 [] False)
       \<lparr>doubles_count := (if (5::int) = 6 then doubles_count (demo_player ''A'' 1500 39 [] False) + 1 else 0),
            position := (position (demo_player ''A'' 1500 39 [] False) + (5 + 6)) mod 40,
            money := money (demo_player ''A'' 1500 39 [] False)
              + (if (position (demo_player ''A'' 1500 39 [] False) + (5 + 6)) mod 40
                      < position (demo_player ''A'' 1500 39 [] False)
                    \<and> (position (demo_player ''A'' 1500 39 [] False) + (5 + 6)) mod 40 \<noteq> 10
                 then 200 else 0)\<rparr>)"
    by (elim exE conjE)
  from pl have "\<exists>p'. players s' ''A'' = Some p' \<and> position p' = 10
          \<and> position p' < position (demo_player ''A'' 1500 39 [] False)
          \<and> money p' = money (demo_player ''A'' 1500 39 [] False)" by simp
  with e have "\<exists>s' r p'. roll_and_move 1 demo_shuffle 5 6 (demo_at 39) = Some (Inr (s', r))
          \<and> players s' ''A'' = Some p' \<and> position p' = 10
          \<and> position p' < position (demo_player ''A'' 1500 39 [] False)
          \<and> money p' = money (demo_player ''A'' 1500 39 [] False)"
    unfolding One_nat_def by blast
  with demo_at_fields(2) [of 39] show ?thesis by (rule conjI)
qed

section \<open>Doubles and jail entry\<close>

text \<open>
  Claim C1. A double that takes the player to jail does not end the turn. In the first move of
  the example game A rolls 1 and 1, reaches Community Chest and draws \<open>Go to Jail\<close>; with A
  on Illinois Avenue (position 24) a roll of 3 and 3 reaches the Go To Jail tile. In both
  cases the call returns with A in jail on position 10, the phase \<open>WAITING_FOR_ROLL\<close> and
  \<open>roll_again\<close> set in the result: \<open>_send_to_jail\<close> leaves the phase \<open>TURN_COMPLETE\<close>, and
  the test at the end of \<open>roll_and_move\<close> takes every double in that phase for a turn that
  may go on.
\<close>

theorem double_into_jail_rolls_again:
  "(\<exists>s' r p'. roll_and_move 2 demo_shuffle 1 1 demo_start = Some (Inr (s', r))
       \<and> players s' ''A'' = Some p' \<and> in_jail p' \<and> position p' = 10
       \<and> phase s' = WAITING_FOR_ROLL \<and> map_of r ''roll_again'' = Some (PBool True))
   \<and> (\<exists>s' r p'. roll_and_move 1 demo_shuffle 3 3 (demo_at 24) = Some (Inr (s', r))
       \<and> players s' ''A'' = Some p' \<and> in_jail p' \<and> position p' = 10
       \<and> phase s' = WAITING_FOR_ROLL \<and> map_of r ''roll_again'' = Some (PBool True))"
  using demo_first_double demo_double_from_24 by blast

section \<open>Drawing from an exhausted deck\<close>

text \<open>
  Claim C3. With the Chance deck drawn to the end, \<open>_draw_card\<close> shuffles a copy of the ten
  cards and takes the top card of the copy; the engine's own deck is not touched and is still
  empty after the draw, so the next draw shuffles a fresh copy of all ten. In the example both
  shuffles leave \<open>Get Out of Jail Free\<close> on top: two draws in a row return that card, and A
  holds two of a card the deck has once.
\<close>

theorem exhausted_deck_stays_empty:
  "chance_deck demo_exhausted = []
   \<and> length (filter (\<lambda>c. c = JailCard ''Get Out of Jail Free'') CHANCE_CARDS) = 1
   \<and> (\<exists>s1 r1 s2 r2 q.
         draw_card 1 demo_shuffle demo_exhausted ''A'' CHANCE = Some (Inr (s1, r1))
         \<and> chance_deck s1 = []
         \<and> draw_card 1 (\<lambda>k. demo_shuffle (Suc k)) s1 ''A'' CHANCE = Some (Inr (s2, r2))
         \<and> chance_deck s2 = []
         \<and> r1 = [(''result'', PStr ''Received Get Out of Jail Free card'')] \<and> r2 = r1
         \<and> players s2 ''A'' = Some q \<and> jail_cards q = 2)"
proof -
  have e: "chance_deck demo_exhausted = []"
    and pa: "players demo_exhausted ''A'' = Some (new_Player ''A'')"
    by (simp_all add: demo_exhausted_def demo_start_fields)
  have top: "demo_shuffle 0 CHANCE_CARDS = JailCard ''Get Out of Jail Free'' # tl (rotate 6 CHANCE_CARDS)"
    "demo_shuffle (Suc 0) CHANCE_CARDS = JailCard ''Get Out of Jail Free'' # tl (rotate 6 CHANCE_CARDS)"
    using demo_chance_top by (simp_all add: demo_shuffle_def)
  from draw_from_exhausted_chance [where sh = demo_shuffle and n = 1, OF pa e top(1)] obtain s1 where
    s1: "draw_card 1 demo_shuffle demo_exhausted ''A'' CHANCE
            = Some (Inr (s1, [(''result'', PStr ''Received Get Out of Jail Free card'')]))"
      "chance_deck s1 = []"
      "players s1 = (players demo_exhausted)(''A'' \<mapsto> (new_Player ''A'')\<lparr>jail_cards := jail_cards (new_Player ''A'') + 1\<rparr>)"
    by (elim exE conjE)
  let ?p1 = "(new_Player ''A'')\<lparr>jail_cards := jail_cards (new_Player ''A'') + 1\<rparr>"
  from s1(3) have p1: "players s1 ''A'' = Some ?p1" by simp
  from draw_from_exhausted_chance [where sh = "\<lambda>k. demo_shuffle (Suc k)" and n = 1, OF p1 s1(2) top(2)]
  obtain s2 where
    s2: "draw_card 1 (\<lambda>k. demo_shuffle (Suc k)) s1 ''A'' CHANCE
            = Some (Inr (s2, [(''result'', PStr ''Received Get Out of Jail Free card'')]))"
      "chance_deck s2 = []"
      "players s2 = (players s1)(''A'' \<mapsto> ?p1\<lparr>jail_cards := jail_cards ?p1 + 1\<rparr>)"
    by (elim exE conjE)
  from s2(3) have "players s2 ''A'' = Some (?p1\<lparr>jail_cards := jail_cards ?p1 + 1\<rparr>)" by simp
  moreover have "jail_cards (?p1\<lparr>jail_cards := jail_cards ?p1 + 1\<rparr>) = 2"
    by (simp add: new_Player_def)
  ultimately have "\<exists>s1 r1 s2 r2 q.
         draw_card 1 demo_shuffle demo_exhausted ''A'' CHANCE = Some (Inr (s1, r1))
         \<and> chance_deck s1 = []
         \<and> draw_card 1 (\<lambda>k. demo_shuffle (Suc k)) s1 ''A'' CHANCE = Some (Inr (s2, r2))
         \<and> chance_deck s2 = []
         \<and> r1 = [(''result'', PStr ''Received Get Out of Jail Free card'')] \<and> r2 = r1
         \<and> players s2 ''A'' = Some q \<and> jail_cards q = 2"
    using s1(1,2) s2(1,2) by blast
  with e chance_jail_cards show ?thesis by blast
qed

end
